theory Spec2Isabelle
  imports Main
begin

section \<open>Data model (schema.sql and the queries of server.js)\<close>

text \<open>
  The booking subsystem of \<^verbatim>\<open>server.js\<close> works on three tables of the relational store:
  \<^verbatim>\<open>users\<close>, \<^verbatim>\<open>doctor_slots\<close> and \<^verbatim>\<open>appointments\<close>. A table is a list of rows
  in insertion order. A \<^verbatim>\<open>DATETIME\<close> value is a natural number (a point on the time
  line), so that \<^verbatim>\<open>slot_at >= NOW()\<close> is \<open>\<le>\<close> and \<^verbatim>\<open>ORDER BY slot_at\<close> is sorting.
\<close>

datatype role = Patient | Doctor

type_synonym datetime = nat

text \<open>The verified JWT payload that \<^verbatim>\<open>authenticateToken\<close> stores in \<^verbatim>\<open>req.user\<close>.\<close>

record req_user =
  u_id :: nat
  u_role :: role

text \<open>A row of \<^verbatim>\<open>doctor_slots\<close> (the queries use the alias \<^verbatim>\<open>ds\<close>).\<close>

record slot =
  ds_id :: nat
  ds_doctor_user_id :: nat
  slot_at :: datetime
  is_booked :: bool
  ds_created_at :: datetime

text \<open>A row of \<^verbatim>\<open>appointments\<close> (the queries use the alias \<^verbatim>\<open>a\<close>).\<close>

record appointment =
  a_id :: nat
  a_patient_user_id :: nat
  a_doctor_user_id :: nat
  a_scheduled_at :: datetime
  a_status :: string
  a_created_at :: datetime

text \<open>
  The store. \<open>users\<close> holds the columns the booking code reads (\<^verbatim>\<open>id\<close>, \<^verbatim>\<open>role\<close>).
  The two counters are the \<^verbatim>\<open>AUTO_INCREMENT\<close> values of the two tables; they are
  modelled only as the source of fresh ids (the gaps the engine leaves after a failed or
  ignored insert are not modelled).
\<close>

record db =
  users :: "(nat \<times> role) list"
  doctor_slots :: "slot list"
  appointments :: "appointment list"
  slot_auto_inc :: nat
  appt_auto_inc :: nat

text \<open>
  The error taxonomy, one constructor per HTTP status the handlers send:
  400, 403, 404, 409 and 500. A failure carries the status and the message of the response.
\<close>

datatype status = InvalidInput | Forbidden | NotFound | Conflict | Internal

type_synonym failure = "status \<times> string"

text \<open>The body of the 201 response of \<^verbatim>\<open>POST /appointments\<close>.\<close>

record booked =
  b_id :: nat
  b_patient_user_id :: nat
  b_doctor_user_id :: nat
  b_scheduled_at :: datetime
  b_slot_id :: nat

text \<open>The composite key \<^verbatim>\<open>(doctor_user_id, slot_at)\<close> resp. \<^verbatim>\<open>(doctor_user_id, scheduled_at)\<close>.\<close>

definition slot_key :: "slot \<Rightarrow> nat \<times> datetime" where
  "slot_key ds = (ds_doctor_user_id ds, slot_at ds)"

definition appt_key :: "appointment \<Rightarrow> nat \<times> datetime" where
  "appt_key a = (a_doctor_user_id a, a_scheduled_at a)"

section \<open>Middleware\<close>

text \<open>
  \<^verbatim>\<open>authorizeRoles(...allowedRoles)\<close> lets the request through iff the role of the token is
  one of the allowed ones; otherwise the response is 403.
\<close>

definition authorizeRoles :: "role list \<Rightarrow> req_user \<Rightarrow> bool" where
  "authorizeRoles allowedRoles u = (u_role u \<in> set allowedRoles)"

definition access_denied :: failure where
  "access_denied = (Forbidden, ''Access denied: insufficient role'')"

section \<open>POST /appointments: a patient claims a slot\<close>

text \<open>
  \<^verbatim>\<open>SELECT ds.id, ds.slot_at, ds.doctor_user_id, ds.is_booked FROM doctor_slots ds
  JOIN users u ON u.id = ds.doctor_user_id AND u.role = 'doctor' WHERE ds.id = ?\<close>;
  the handler takes the first row.
\<close>

definition select_slot :: "db \<Rightarrow> nat \<Rightarrow> slot option" where
  "select_slot s sid =
     find (\<lambda>ds. ds_id ds = sid \<and> map_of (users s) (ds_doctor_user_id ds) = Some Doctor)
          (doctor_slots s)"

text \<open>
  \<^verbatim>\<open>UPDATE doctor_slots SET is_booked = 1 WHERE id = ? AND is_booked = 0\<close>:
  the new table and \<^verbatim>\<open>affectedRows\<close>.
\<close>

definition mark_booked :: "nat \<Rightarrow> slot list \<Rightarrow> slot list \<times> nat" where
  "mark_booked sid tbl =
     (map (\<lambda>ds. if ds_id ds = sid \<and> \<not> is_booked ds then ds\<lparr>is_booked := True\<rparr> else ds) tbl,
      length (filter (\<lambda>ds. ds_id ds = sid \<and> \<not> is_booked ds) tbl))"

text \<open>
  \<^verbatim>\<open>INSERT INTO appointments (patient_user_id, doctor_user_id, scheduled_at, status,
  created_at) VALUES (?, ?, ?, ?, NOW())\<close>. The statement raises when the unique key
  \<^verbatim>\<open>ux_appt_doctor_time\<close> or one of the two foreign keys into \<^verbatim>\<open>users\<close> is violated
  (\<open>None\<close>); otherwise it returns \<^verbatim>\<open>insertId\<close> and the new store.
\<close>

definition insert_appointment ::
  "datetime \<Rightarrow> nat \<Rightarrow> nat \<Rightarrow> datetime \<Rightarrow> string \<Rightarrow> db \<Rightarrow> (nat \<times> db) option" where
  "insert_appointment now patientId doctorId scheduledAt st s =
     (if (doctorId, scheduledAt) \<in> set (map appt_key (appointments s))
         \<or> map_of (users s) patientId = None \<or> map_of (users s) doctorId = None
      then None
      else Some (appt_auto_inc s,
        s\<lparr>appointments := appointments s @
             [\<lparr>a_id = appt_auto_inc s, a_patient_user_id = patientId,
               a_doctor_user_id = doctorId, a_scheduled_at = scheduledAt,
               a_status = st, a_created_at = now\<rparr>],
          appt_auto_inc := Suc (appt_auto_inc s)\<rparr>))"

text \<open>
  The pool is created without \<^verbatim>\<open>dateStrings\<close> and without \<^verbatim>\<open>timezone\<close>, so the driver
  hands the handler \<^verbatim>\<open>slot.slot_at\<close> as a JavaScript \<^verbatim>\<open>Date\<close>, made of the \<^verbatim>\<open>DATETIME\<close>
  read as a local time of the process, and writes the \<^verbatim>\<open>Date\<close> it gets as a parameter
  (\<^verbatim>\<open>scheduledAt\<close>) back as the local time of that instant. \<open>via_date\<close> is this round trip
  from a \<^verbatim>\<open>DATETIME\<close> to the \<^verbatim>\<open>DATETIME\<close> written back. It belongs to the driver and to the
  time zone of the process, so it is a parameter. It returns a time that exists as a local
  time unchanged; a time in a daylight-saving gap comes back shifted.

  The transaction of the handler (\<^verbatim>\<open>beginTransaction\<close> ... \<^verbatim>\<open>commit\<close>). A rollback
  returns the store the transaction started from. The response carries the \<^verbatim>\<open>Date\<close>; the
  model gives it as the \<^verbatim>\<open>DATETIME\<close> it is written as.
\<close>

definition booking_tx ::
  "(datetime \<Rightarrow> datetime) \<Rightarrow> datetime \<Rightarrow> nat \<Rightarrow> nat \<Rightarrow> slot \<Rightarrow> db
     \<Rightarrow> (failure + booked) \<times> db" where
  "booking_tx via_date now patientId doctorSlotId slot s =
     (let doctorId = ds_doctor_user_id slot;
          scheduledAt = via_date (slot_at slot);
          (tbl, affectedRows) = mark_booked doctorSlotId (doctor_slots s) in
      if affectedRows = 0 then (Inl (Conflict, ''Slot already booked (race)''), s)
      else
        (case insert_appointment now patientId doctorId scheduledAt
                ''booked'' (s\<lparr>doctor_slots := tbl\<rparr>) of
           None \<Rightarrow> (Inl (Internal, ''Failed to book slot''), s)
         | Some (insertId, s') \<Rightarrow>
             (Inr \<lparr>b_id = insertId, b_patient_user_id = patientId,
                   b_doctor_user_id = doctorId,
                   b_scheduled_at = scheduledAt, b_slot_id = doctorSlotId\<rparr>, s')))"

text \<open>
  The handler. \<open>doctorSlotId\<close> is the field of the request body, a JSON number (\<open>None\<close>
  when the body has no such field); \<^verbatim>\<open>!doctorSlotId\<close> holds for a missing field and for 0.
\<close>

definition post_appointments ::
  "(datetime \<Rightarrow> datetime) \<Rightarrow> datetime \<Rightarrow> req_user \<Rightarrow> nat option \<Rightarrow> db
     \<Rightarrow> (failure + booked) \<times> db" where
  "post_appointments via_date now u doctorSlotId s =
     (if \<not> authorizeRoles [Patient] u then (Inl access_denied, s)
      else
        (case doctorSlotId of
           None \<Rightarrow> (Inl (InvalidInput, ''doctorSlotId is required''), s)
         | Some sid \<Rightarrow>
             if sid = 0 then (Inl (InvalidInput, ''doctorSlotId is required''), s)
             else
               (case select_slot s sid of
                  None \<Rightarrow> (Inl (NotFound, ''Slot not found''), s)
                | Some slot \<Rightarrow>
                    if is_booked slot then (Inl (Conflict, ''Slot already booked''), s)
                    else booking_tx via_date now (u_id u) sid slot s)))"

section \<open>DELETE /appointments/:id: the patient or the doctor cancels\<close>

text \<open>\<^verbatim>\<open>SELECT * FROM appointments WHERE id = ?\<close>, first row.\<close>

definition select_appointment :: "db \<Rightarrow> nat \<Rightarrow> appointment option" where
  "select_appointment s apptId = find (\<lambda>a. a_id a = apptId) (appointments s)"

text \<open>\<^verbatim>\<open>DELETE FROM appointments WHERE id = ?\<close>\<close>

definition delete_appointment_row :: "nat \<Rightarrow> appointment list \<Rightarrow> appointment list" where
  "delete_appointment_row apptId tbl = filter (\<lambda>a. a_id a \<noteq> apptId) tbl"

text \<open>\<^verbatim>\<open>UPDATE doctor_slots SET is_booked = 0 WHERE doctor_user_id = ? AND slot_at = ?\<close>\<close>

definition free_slot :: "nat \<Rightarrow> datetime \<Rightarrow> slot list \<Rightarrow> slot list" where
  "free_slot doctorId scheduledAt tbl =
     map (\<lambda>ds. if ds_doctor_user_id ds = doctorId \<and> slot_at ds = scheduledAt
               then ds\<lparr>is_booked := False\<rparr> else ds) tbl"

text \<open>
  The transaction of the cancellation. The time of an appointment row is one that a claim
  has written, a local time that exists, which the driver reads and writes back unchanged.
\<close>

definition cancel_tx :: "appointment \<Rightarrow> db \<Rightarrow> db" where
  "cancel_tx appointment s =
     s\<lparr>appointments := delete_appointment_row (a_id appointment) (appointments s),
       doctor_slots := free_slot (a_doctor_user_id appointment) (a_scheduled_at appointment)
                         (doctor_slots s)\<rparr>"

definition delete_appointment :: "req_user \<Rightarrow> nat \<Rightarrow> db \<Rightarrow> (failure + string) \<times> db" where
  "delete_appointment u apptId s =
     (case select_appointment s apptId of
        None \<Rightarrow> (Inl (NotFound, ''Appointment not found''), s)
      | Some appointment \<Rightarrow>
          (let isPatient = (a_patient_user_id appointment = u_id u \<and> u_role u = Patient);
               isDoctor = (a_doctor_user_id appointment = u_id u \<and> u_role u = Doctor)
           in if \<not> isPatient \<and> \<not> isDoctor
              then (Inl (Forbidden, ''Not authorized to cancel this appointment''), s)
              else (Inr ''Appointment canceled'', cancel_tx appointment s)))"

section \<open>POST /doctor/slots: a doctor publishes slots\<close>

text \<open>
  \<^verbatim>\<open>validateDateTimeSQL\<close> tests the regular expression
  \<^verbatim>\<open>/^\d{4}-\d{2}-\d{2} \d{2}:\d{2}:\d{2}$/\<close>. \<open>shape\<close> matches a string against a
  template in which \<open>d\<close> stands for a decimal digit and every other character for itself.
\<close>

definition is_digit :: "char \<Rightarrow> bool" where
  "is_digit c = (c \<in> set ''0123456789'')"

fun shape :: "string \<Rightarrow> string \<Rightarrow> bool" where
  "shape [] [] = True"
| "shape (p # ps) (c # cs) = ((if p = CHR ''d'' then is_digit c else c = p) \<and> shape ps cs)"
| "shape _ _ = False"

definition validateDateTimeSQL :: "string \<Rightarrow> bool" where
  "validateDateTimeSQL dt = shape ''dddd-dd-dd dd:dd:dd'' dt"

text \<open>
  An element of the \<^verbatim>\<open>slots\<close> array of the request body: a string, or a value of another
  type (\<^verbatim>\<open>typeof s !== "string"\<close>).
\<close>

datatype jsval = JStr string | JOther

fun slot_format_ok :: "jsval \<Rightarrow> bool" where
  "slot_format_ok (JStr x) = validateDateTimeSQL x"
| "slot_format_ok JOther = False"

fun the_str :: "jsval \<Rightarrow> string" where
  "the_str (JStr x) = x"
| "the_str JOther = []"

text \<open>
  \<^verbatim>\<open>INSERT IGNORE INTO doctor_slots (doctor_user_id, slot_at) VALUES ?\<close> with a list of
  rows: a row whose key \<^verbatim>\<open>(doctor_user_id, slot_at)\<close> is already in the table (also one
  inserted earlier by the same statement), or whose doctor is no row of \<^verbatim>\<open>users\<close>, is
  skipped; every other row is appended with the default \<^verbatim>\<open>is_booked = 0\<close>. The result is
  \<^verbatim>\<open>affectedRows\<close>, the number of rows inserted, and the new store.
\<close>

fun insert_ignore_slots :: "datetime \<Rightarrow> (nat \<times> datetime) list \<Rightarrow> db \<Rightarrow> nat \<times> db" where
  "insert_ignore_slots now [] s = (0, s)"
| "insert_ignore_slots now ((d, t) # vs) s =
     (if map_of (users s) d = None \<or> (d, t) \<in> set (map slot_key (doctor_slots s))
      then insert_ignore_slots now vs s
      else
        (let (n, s') = insert_ignore_slots now vs
               (s\<lparr>doctor_slots := doctor_slots s @
                    [\<lparr>ds_id = slot_auto_inc s, ds_doctor_user_id = d, slot_at = t,
                      is_booked = False, ds_created_at = now\<rparr>],
                  slot_auto_inc := Suc (slot_auto_inc s)\<rparr>)
         in (Suc n, s')))"

text \<open>
  The handler. \<open>slots\<close> is the field of the request body: \<open>None\<close> when it is not an
  array. \<open>to_datetime\<close> is the store's reading of a \<^verbatim>\<open>'YYYY-MM-DD HH:MM:SS'\<close> literal as
  a \<^verbatim>\<open>DATETIME\<close> value; it belongs to the database engine, so it is a parameter here.
  The 400 response for a malformed element quotes the element; the model keeps the fixed
  part of the message.
\<close>

definition post_doctor_slots ::
  "(string \<Rightarrow> datetime) \<Rightarrow> datetime \<Rightarrow> req_user \<Rightarrow> jsval list option \<Rightarrow> db
     \<Rightarrow> (failure + nat) \<times> db" where
  "post_doctor_slots to_datetime now u slots s =
     (if \<not> authorizeRoles [Doctor] u then (Inl access_denied, s)
      else
        (case slots of
           None \<Rightarrow> (Inl (InvalidInput, ''slots (array) required''), s)
         | Some xs \<Rightarrow>
             if xs = [] then (Inl (InvalidInput, ''slots (array) required''), s)
             else if \<not> list_all slot_format_ok xs
             then (Inl (InvalidInput, ''Invalid slot format''), s)
             else
               (let values = map (\<lambda>x. (u_id u, to_datetime (the_str x))) xs;
                    (affectedRows, s') = insert_ignore_slots now values s
                in (Inr affectedRows, s'))))"

section \<open>DELETE /doctor/slots/:id: a doctor deletes a free slot\<close>

text \<open>\<^verbatim>\<open>SELECT * FROM doctor_slots WHERE id = ? AND doctor_user_id = ?\<close>, first row.\<close>

definition select_own_slot :: "db \<Rightarrow> nat \<Rightarrow> nat \<Rightarrow> slot option" where
  "select_own_slot s slotId doctorId =
     find (\<lambda>ds. ds_id ds = slotId \<and> ds_doctor_user_id ds = doctorId) (doctor_slots s)"

text \<open>\<^verbatim>\<open>DELETE FROM doctor_slots WHERE id = ?\<close>\<close>

definition delete_slot_row :: "nat \<Rightarrow> slot list \<Rightarrow> slot list" where
  "delete_slot_row slotId tbl = filter (\<lambda>ds. ds_id ds \<noteq> slotId) tbl"

definition delete_doctor_slot :: "req_user \<Rightarrow> nat \<Rightarrow> db \<Rightarrow> (failure + string) \<times> db" where
  "delete_doctor_slot u slotId s =
     (if \<not> authorizeRoles [Doctor] u then (Inl access_denied, s)
      else
        (case select_own_slot s slotId (u_id u) of
           None \<Rightarrow> (Inl (NotFound, ''Slot not found''), s)
         | Some slot \<Rightarrow>
             if is_booked slot then (Inl (Conflict, ''Cannot delete a booked slot''), s)
             else (Inr ''Slot deleted'',
                   s\<lparr>doctor_slots := delete_slot_row slotId (doctor_slots s)\<rparr>)))"

section \<open>GET /doctors/:username/slots: the listing a patient sees\<close>

text \<open>
  The last query of the handler, for the doctor id it has resolved:
  \<^verbatim>\<open>SELECT id AS slot_id, slot_at, is_booked FROM doctor_slots
  WHERE doctor_user_id = ? AND slot_at >= NOW() ORDER BY slot_at ASC\<close>.
  A result row is the triple \<open>(slot_id, slot_at, is_booked)\<close>.
\<close>

definition future_slots :: "datetime \<Rightarrow> nat \<Rightarrow> db \<Rightarrow> (nat \<times> datetime \<times> bool) list" where
  "future_slots now doctorId s =
     map (\<lambda>ds. (ds_id ds, slot_at ds, is_booked ds))
       (sort_key slot_at
          (filter (\<lambda>ds. ds_doctor_user_id ds = doctorId \<and> now \<le> slot_at ds) (doctor_slots s)))"

section \<open>Constraints of the schema and the booking invariant\<close>

text \<open>
  What the store itself enforces (schema.sql): the primary keys, the unique keys
  \<^verbatim>\<open>ux_doctor_slot\<close> and \<^verbatim>\<open>ux_appt_doctor_time\<close>, the foreign keys into \<^verbatim>\<open>users\<close>,
  and ids handed out by \<^verbatim>\<open>AUTO_INCREMENT\<close> (positive, below the counter).
\<close>

definition schema_ok :: "db \<Rightarrow> bool" where
  "schema_ok s =
     (distinct (map fst (users s))
      \<and> distinct (map ds_id (doctor_slots s))
      \<and> distinct (map slot_key (doctor_slots s))
      \<and> distinct (map a_id (appointments s))
      \<and> distinct (map appt_key (appointments s))
      \<and> (\<forall>ds \<in> set (doctor_slots s).
            0 < ds_id ds \<and> ds_id ds < slot_auto_inc s
            \<and> map_of (users s) (ds_doctor_user_id ds) \<noteq> None)
      \<and> (\<forall>a \<in> set (appointments s).
            0 < a_id a \<and> a_id a < appt_auto_inc s
            \<and> map_of (users s) (a_patient_user_id a) \<noteq> None
            \<and> map_of (users s) (a_doctor_user_id a) \<noteq> None)
      \<and> 0 < slot_auto_inc s \<and> 0 < appt_auto_inc s)"

text \<open>The appointments that hold a given composite key.\<close>

definition appts_at :: "db \<Rightarrow> nat \<times> datetime \<Rightarrow> appointment list" where
  "appts_at s k = filter (\<lambda>a. appt_key a = k) (appointments s)"

text \<open>
  The invariant of the booking protocol: a slot is booked iff exactly one appointment
  holds its \<^verbatim>\<open>(doctor_id, scheduled_time)\<close>.
\<close>

definition booking_invariant :: "db \<Rightarrow> bool" where
  "booking_invariant s =
     (\<forall>ds \<in> set (doctor_slots s). is_booked ds \<longleftrightarrow> length (appts_at s (slot_key ds)) = 1)"

text \<open>
  Slots are published through \<^verbatim>\<open>POST /doctor/slots\<close> only, which demands the role
  \<^verbatim>\<open>doctor\<close>: the owner of every slot is a \<^verbatim>\<open>users\<close> row with that role.
\<close>

definition owners_are_doctors :: "db \<Rightarrow> bool" where
  "owners_are_doctors s =
     (\<forall>ds \<in> set (doctor_slots s). map_of (users s) (ds_doctor_user_id ds) = Some Doctor)"

text \<open>
  A token is issued by \<^verbatim>\<open>POST /login\<close> from the \<^verbatim>\<open>users\<close> row: its id and role are
  those of the row.
\<close>

definition authenticated :: "db \<Rightarrow> req_user \<Rightarrow> bool" where
  "authenticated s u = (map_of (users s) (u_id u) = Some (u_role u))"

text \<open>
  The time of every slot comes back unchanged from the round trip through a \<^verbatim>\<open>Date\<close>.
  This holds of every store when the process runs in a time zone without daylight saving.
\<close>

definition times_survive :: "(datetime \<Rightarrow> datetime) \<Rightarrow> db \<Rightarrow> bool" where
  "times_survive via_date s = (\<forall>ds \<in> set (doctor_slots s). via_date (slot_at ds) = slot_at ds)"

section \<open>Sequences of claim and cancel requests\<close>

datatype request =
  Claim datetime req_user "nat option"
| Cancel req_user nat

fun exec :: "(datetime \<Rightarrow> datetime) \<Rightarrow> request \<Rightarrow> db \<Rightarrow> db" where
  "exec via_date (Claim now u doctorSlotId) s
     = snd (post_appointments via_date now u doctorSlotId s)"
| "exec via_date (Cancel u apptId) s = snd (delete_appointment u apptId s)"

text \<open>The store after each request of a sequence (each commit boundary), the start included.\<close>

fun commits :: "(datetime \<Rightarrow> datetime) \<Rightarrow> request list \<Rightarrow> db \<Rightarrow> db list" where
  "commits via_date [] s = [s]"
| "commits via_date (r # rs) s = s # commits via_date rs (exec via_date r s)"

section \<open>Concurrent requests for one slot\<close>

text \<open>
  Several \<^verbatim>\<open>POST /appointments\<close> requests for the same \<^verbatim>\<open>doctorSlotId\<close> run
  interleaved, each on its own connection. A request that has passed the middleware and
  the check of the body gives up control at every \<^verbatim>\<open>await\<close>; its position is a
  \<open>stage\<close>:
  \<^item> \<open>Start\<close>: before the \<^verbatim>\<open>SELECT\<close> of the pre-check;
  \<^item> \<open>Checked slot\<close>: the pre-check has found the slot free; before the \<^verbatim>\<open>UPDATE\<close>;
  \<^item> \<open>Updated slot w\<close>: the \<^verbatim>\<open>UPDATE\<close> has changed a row; \<open>w\<close> is the store as the open
    transaction sees it; before the \<^verbatim>\<open>INSERT\<close>;
  \<^item> \<open>Inserted slot insertId w\<close>: the \<^verbatim>\<open>INSERT\<close> has succeeded; before \<^verbatim>\<open>commit\<close>;
  \<^item> \<open>Done r\<close>: the response \<open>r\<close> has been sent.

  The store is the one the schema asks for (InnoDB): the pre-check is a plain read of
  the committed store; an \<^verbatim>\<open>UPDATE\<close> that changes the row locks it until the
  transaction ends, and an \<^verbatim>\<open>UPDATE\<close> of a locked row waits. All requests here address
  the same row, so a transaction that holds the lock is the only one with uncommitted
  writes, and its commit replaces the committed store by its view \<open>w\<close>.
\<close>

datatype stage =
  Start
| Checked slot
| Updated slot db
| Inserted slot nat db
| Done "failure + booked"

fun holds_lock :: "stage \<Rightarrow> bool" where
  "holds_lock (Updated slot w) = True"
| "holds_lock (Inserted slot insertId w) = True"
| "holds_lock _ = False"

text \<open>
  One statement of one request: from the committed store \<open>s\<close> and the stage to the new
  committed store and the new stage. \<open>lock_free\<close> says that no transaction holds the lock
  of the row; \<open>u\<close> is \<^verbatim>\<open>req.user\<close> and \<open>now\<close> the value of \<^verbatim>\<open>NOW()\<close> in the insert;
  \<open>via_date\<close> is the round trip of \<^verbatim>\<open>slot_at\<close> through a \<^verbatim>\<open>Date\<close>, as in \<open>booking_tx\<close>.
\<close>

fun advance ::
  "(datetime \<Rightarrow> datetime) \<Rightarrow> nat \<Rightarrow> bool \<Rightarrow> db \<Rightarrow> req_user \<Rightarrow> datetime \<Rightarrow> stage
     \<Rightarrow> db \<times> stage" where
  "advance via_date sid lock_free s u now Start =
     (case select_slot s sid of
        None \<Rightarrow> (s, Done (Inl (NotFound, ''Slot not found'')))
      | Some slot \<Rightarrow>
          if is_booked slot then (s, Done (Inl (Conflict, ''Slot already booked'')))
          else (s, Checked slot))"
| "advance via_date sid lock_free s u now (Checked slot) =
     (if \<not> lock_free then (s, Checked slot)
      else
        (let (tbl, affectedRows) = mark_booked sid (doctor_slots s) in
         if affectedRows = 0 then (s, Done (Inl (Conflict, ''Slot already booked (race)'')))
         else (s, Updated slot (s\<lparr>doctor_slots := tbl\<rparr>))))"
| "advance via_date sid lock_free s u now (Updated slot w) =
     (case insert_appointment now (u_id u) (ds_doctor_user_id slot) (via_date (slot_at slot))
             ''booked'' w of
        None \<Rightarrow> (s, Done (Inl (Internal, ''Failed to book slot'')))
      | Some (insertId, w') \<Rightarrow> (s, Inserted slot insertId w'))"
| "advance via_date sid lock_free s u now (Inserted slot insertId w) =
     (w, Done (Inr \<lparr>b_id = insertId, b_patient_user_id = u_id u,
                    b_doctor_user_id = ds_doctor_user_id slot,
                    b_scheduled_at = via_date (slot_at slot), b_slot_id = sid\<rparr>))"
| "advance via_date sid lock_free s u now (Done r) = (s, Done r)"

text \<open>A request in flight: the caller, the time of its insert, and its stage.\<close>

record attempt =
  who :: req_user
  clock :: datetime
  stage :: stage

record racing =
  committed :: db
  attempts :: "attempt list"

definition lock_free :: "racing \<Rightarrow> bool" where
  "lock_free c = list_all (\<lambda>a. \<not> holds_lock (stage a)) (attempts c)"

text \<open>The scheduler lets request \<open>i\<close> run its next statement.\<close>

definition step :: "(datetime \<Rightarrow> datetime) \<Rightarrow> nat \<Rightarrow> nat \<Rightarrow> racing \<Rightarrow> racing" where
  "step via_date sid i c =
     (if i < length (attempts c)
      then
        (let a = attempts c ! i;
             (s', st') = advance via_date sid (lock_free c) (committed c)
                           (who a) (clock a) (stage a)
         in \<lparr>committed = s', attempts = (attempts c)[i := a\<lparr>stage := st'\<rparr>]\<rparr>)
      else c)"

fun run :: "(datetime \<Rightarrow> datetime) \<Rightarrow> nat \<Rightarrow> nat list \<Rightarrow> racing \<Rightarrow> racing" where
  "run via_date sid [] c = c"
| "run via_date sid (i # schedule) c = run via_date sid schedule (step via_date sid i c)"

fun is_done :: "stage \<Rightarrow> bool" where
  "is_done (Done r) = True"
| "is_done _ = False"

fun succeeded :: "stage \<Rightarrow> bool" where
  "succeeded (Done (Inr b)) = True"
| "succeeded _ = False"

fun conflicted :: "stage \<Rightarrow> bool" where
  "conflicted (Done (Inl (st, msg))) = (st = Conflict)"
| "conflicted _ = False"

definition finished :: "racing \<Rightarrow> bool" where
  "finished c = list_all (\<lambda>a. is_done (stage a)) (attempts c)"

text \<open>The statements a request still has to run.\<close>

fun remaining :: "stage \<Rightarrow> nat" where
  "remaining Start = 4"
| "remaining (Checked slot) = 3"
| "remaining (Updated slot w) = 2"
| "remaining (Inserted slot insertId w) = 1"
| "remaining (Done r) = 0"

text \<open>
  The stores and the response of the race for the free slot \<open>ds\<close> of the store \<open>s\<close>:
  the view of a transaction after its \<^verbatim>\<open>UPDATE\<close>, its view after its \<^verbatim>\<open>INSERT\<close>, and
  the body of its 201 response.
\<close>

definition updated_view :: "db \<Rightarrow> slot \<Rightarrow> db" where
  "updated_view s ds =
     s\<lparr>doctor_slots := map (\<lambda>x. if x = ds then ds\<lparr>is_booked := True\<rparr> else x) (doctor_slots s)\<rparr>"

definition inserted_view :: "db \<Rightarrow> slot \<Rightarrow> attempt \<Rightarrow> db" where
  "inserted_view s ds a =
     (updated_view s ds)
       \<lparr>appointments := appointments s @
          [\<lparr>a_id = appt_auto_inc s, a_patient_user_id = u_id (who a),
            a_doctor_user_id = ds_doctor_user_id ds, a_scheduled_at = slot_at ds,
            a_status = ''booked'', a_created_at = clock a\<rparr>],
        appt_auto_inc := Suc (appt_auto_inc s)\<rparr>"

definition created :: "db \<Rightarrow> slot \<Rightarrow> attempt \<Rightarrow> booked" where
  "created s ds a =
     \<lparr>b_id = appt_auto_inc s, b_patient_user_id = u_id (who a),
      b_doctor_user_id = ds_doctor_user_id ds, b_scheduled_at = slot_at ds,
      b_slot_id = ds_id ds\<rparr>"

text \<open>
  The stages of a request that has not won the race: \<open>waiting\<close> while no request has
  committed; \<open>waiting\<close> or rejected with 409 after one has. The 409 of the pre-check is
  possible only for a request that had not passed the pre-check at the beginning.
\<close>

definition waiting :: "slot \<Rightarrow> attempt \<Rightarrow> stage \<Rightarrow> bool" where
  "waiting ds a0 st = ((st = Start \<and> stage a0 = Start) \<or> st = Checked ds)"

definition losing :: "slot \<Rightarrow> attempt \<Rightarrow> stage \<Rightarrow> bool" where
  "losing ds a0 st =
     (waiting ds a0 st
      \<or> st = Done (Inl (Conflict, ''Slot already booked (race)''))
      \<or> (st = Done (Inl (Conflict, ''Slot already booked'')) \<and> stage a0 = Start))"

text \<open>
  The invariant of the race that begins with the requests \<open>init\<close> on the store \<open>s\<close>:
  no request has changed a row; or one holds the lock, the committed store still being
  \<open>s\<close>; or one has committed and got its 201.
\<close>

definition race_inv :: "db \<Rightarrow> slot \<Rightarrow> attempt list \<Rightarrow> racing \<Rightarrow> bool" where
  "race_inv s ds init c =
     (length (attempts c) = length init
      \<and> (\<forall>i < length init. who (attempts c ! i) = who (init ! i)
                           \<and> clock (attempts c ! i) = clock (init ! i))
      \<and> ((committed c = s
           \<and> (\<forall>i < length init. waiting ds (init ! i) (stage (attempts c ! i))))
          \<or> (\<exists>w < length init. committed c = s
                \<and> (stage (attempts c ! w) = Updated ds (updated_view s ds)
                    \<or> stage (attempts c ! w)
                        = Inserted ds (appt_auto_inc s) (inserted_view s ds (init ! w)))
                \<and> (\<forall>i < length init. i \<noteq> w \<longrightarrow> waiting ds (init ! i) (stage (attempts c ! i))))
          \<or> (\<exists>w < length init. committed c = inserted_view s ds (init ! w)
                \<and> stage (attempts c ! w) = Done (Inr (created s ds (init ! w)))
                \<and> (\<forall>i < length init. i \<noteq> w \<longrightarrow> losing ds (init ! i) (stage (attempts c ! i))))))"

text \<open>
  The beginning of a race for the slot \<open>ds\<close>: the store satisfies the schema and the
  booking invariant, the slot is free and its time comes back unchanged from the round
  trip through a \<^verbatim>\<open>Date\<close>, and every request comes from an authenticated patient and
  stands before its pre-check or has just passed it.
\<close>

definition contest :: "(datetime \<Rightarrow> datetime) \<Rightarrow> db \<Rightarrow> slot \<Rightarrow> attempt list \<Rightarrow> bool" where
  "contest via_date s ds init =
     (schema_ok s \<and> owners_are_doctors s \<and> booking_invariant s
      \<and> ds \<in> set (doctor_slots s) \<and> \<not> is_booked ds
      \<and> via_date (slot_at ds) = slot_at ds
      \<and> init \<noteq> []
      \<and> (\<forall>a \<in> set init. authenticated s (who a) \<and> u_role (who a) = Patient
                          \<and> (stage a = Start \<or> stage a = Checked ds)))"

text \<open>The statements still to run, over all requests.\<close>

definition pending :: "racing \<Rightarrow> nat" where
  "pending c = sum_list (map (\<lambda>a. remaining (stage a)) (attempts c))"

section \<open>The stores the handlers produce\<close>

text \<open>No appointment without a slot that has its composite key.\<close>

definition no_orphans :: "db \<Rightarrow> bool" where
  "no_orphans s = (\<forall>a \<in> set (appointments s). appt_key a \<in> set (map slot_key (doctor_slots s)))"

text \<open>
  The stores that the four handlers of the booking subsystem produce, one request after
  the other, from a store with users but no slots and no appointments. A doctor who
  publishes slots is authenticated; nothing is asked of the other callers.
\<close>

inductive reachable :: "(datetime \<Rightarrow> datetime) \<Rightarrow> db \<Rightarrow> bool"
  for via_date :: "datetime \<Rightarrow> datetime" where
  fresh:
    "distinct (map fst us) \<Longrightarrow>
     reachable via_date \<lparr>users = us, doctor_slots = [], appointments = [],
                slot_auto_inc = 1, appt_auto_inc = 1\<rparr>"
| publish:
    "reachable via_date s \<Longrightarrow> authenticated s u \<Longrightarrow>
     reachable via_date (snd (post_doctor_slots to_datetime now u slots s))"
| delete_slot:
    "reachable via_date s \<Longrightarrow> reachable via_date (snd (delete_doctor_slot u slotId s))"
| claim:
    "reachable via_date s \<Longrightarrow>
     reachable via_date (snd (post_appointments via_date now u doctorSlotId s))"
| cancel:
    "reachable via_date s \<Longrightarrow> reachable via_date (snd (delete_appointment u apptId s))"

section \<open>Sample stores\<close>

text \<open>
  Doctor 1 has published two slots; patient 2 has booked the second one. Users 3 and 5
  are further patients, user 4 a further doctor.
\<close>

definition sample_store :: db where
  "sample_store =
     \<lparr>users = [(1, Doctor), (2, Patient), (3, Patient), (4, Doctor), (5, Patient)],
      doctor_slots =
        [\<lparr>ds_id = 1, ds_doctor_user_id = 1, slot_at = 100, is_booked = False, ds_created_at = 10\<rparr>,
         \<lparr>ds_id = 2, ds_doctor_user_id = 1, slot_at = 200, is_booked = True, ds_created_at = 10\<rparr>],
      appointments =
        [\<lparr>a_id = 1, a_patient_user_id = 2, a_doctor_user_id = 1, a_scheduled_at = 200,
          a_status = ''booked'', a_created_at = 20\<rparr>],
      slot_auto_inc = 3, appt_auto_inc = 2\<rparr>"

text \<open>
  A store that has drifted: slot 1 is free although an appointment already holds its
  \<^verbatim>\<open>(doctor_user_id, scheduled_at)\<close>.
\<close>

definition drifted_store :: db where
  "drifted_store =
     \<lparr>users = [(1, Doctor), (2, Patient), (3, Patient)],
      doctor_slots =
        [\<lparr>ds_id = 1, ds_doctor_user_id = 1, slot_at = 100, is_booked = False, ds_created_at = 10\<rparr>],
      appointments =
        [\<lparr>a_id = 1, a_patient_user_id = 2, a_doctor_user_id = 1, a_scheduled_at = 100,
          a_status = ''booked'', a_created_at = 20\<rparr>],
      slot_auto_inc = 2, appt_auto_inc = 2\<rparr>"

text \<open>A store whose only appointment has no slot row with its composite key.\<close>

definition orphan_store :: db where
  "orphan_store =
     \<lparr>users = [(1, Doctor), (2, Patient), (3, Patient)],
      doctor_slots =
        [\<lparr>ds_id = 1, ds_doctor_user_id = 1, slot_at = 100, is_booked = False, ds_created_at = 10\<rparr>],
      appointments =
        [\<lparr>a_id = 1, a_patient_user_id = 2, a_doctor_user_id = 1, a_scheduled_at = 300,
          a_status = ''booked'', a_created_at = 20\<rparr>],
      slot_auto_inc = 2, appt_auto_inc = 2\<rparr>"

text \<open>The status of a response: \<open>None\<close> for a success.\<close>

definition failure_status :: "(failure + 'a) \<times> db \<Rightarrow> status option" where
  "failure_status r = (case fst r of Inl (st, msg) \<Rightarrow> Some st | Inr x \<Rightarrow> None)"

text \<open>Three patients request slot 1 of \<open>sample_store\<close> at once.\<close>

definition sample_requests :: "attempt list" where
  "sample_requests =
     [\<lparr>who = \<lparr>u_id = 3, u_role = Patient\<rparr>, clock = 50, stage = Start\<rparr>,
      \<lparr>who = \<lparr>u_id = 2, u_role = Patient\<rparr>, clock = 51, stage = Start\<rparr>,
      \<lparr>who = \<lparr>u_id = 5, u_role = Patient\<rparr>, clock = 52, stage = Start\<rparr>]"

text \<open>
  A time zone in which, on the day the times of the samples count the seconds of, the
  clocks go from 02:00 (7200) to 03:00 (10800). A \<^verbatim>\<open>DATETIME\<close> in the gap is no local time;
  the \<^verbatim>\<open>Date\<close> made of it is the instant one hour later, and that is what is written
  back: 02:30 (9000) comes back as 03:30 (12600).
\<close>

definition gap_zone :: "datetime \<Rightarrow> datetime" where
  "gap_zone t = (if 7200 \<le> t \<and> t < 10800 then t + 3600 else t)"

text \<open>Doctor 1 has published a slot at 02:30 of that day; nothing is booked.\<close>

definition gap_store :: db where
  "gap_store =
     \<lparr>users = [(1, Doctor), (2, Patient), (3, Patient)],
      doctor_slots =
        [\<lparr>ds_id = 1, ds_doctor_user_id = 1, slot_at = 9000, is_booked = False, ds_created_at = 10\<rparr>],
      appointments = [],
      slot_auto_inc = 2, appt_auto_inc = 1\<rparr>"

text \<open>
  Doctor 1 has published slots at 02:30 and at 03:30 of that day; patient 3 has booked
  the one at 03:30.
\<close>

definition collision_store :: db where
  "collision_store =
     \<lparr>users = [(1, Doctor), (2, Patient), (3, Patient), (5, Patient)],
      doctor_slots =
        [\<lparr>ds_id = 1, ds_doctor_user_id = 1, slot_at = 9000, is_booked = False, ds_created_at = 10\<rparr>,
         \<lparr>ds_id = 2, ds_doctor_user_id = 1, slot_at = 12600, is_booked = True, ds_created_at = 10\<rparr>],
      appointments =
        [\<lparr>a_id = 1, a_patient_user_id = 3, a_doctor_user_id = 1, a_scheduled_at = 12600,
          a_status = ''booked'', a_created_at = 20\<rparr>],
      slot_auto_inc = 3, appt_auto_inc = 2\<rparr>"

text \<open>Patients 2 and 5 request slot 1 of \<open>collision_store\<close> at once.\<close>

definition gap_requests :: "attempt list" where
  "gap_requests =
     [\<lparr>who = \<lparr>u_id = 2, u_role = Patient\<rparr>, clock = 50, stage = Start\<rparr>,
      \<lparr>who = \<lparr>u_id = 5, u_role = Patient\<rparr>, clock = 51, stage = Start\<rparr>]"

section \<open>Auxiliary facts about the queries\<close>

lemma find_unique:
  "x \<in> set xs \<Longrightarrow> P x \<Longrightarrow> (\<forall>y \<in> set xs. P y \<longrightarrow> y = x) \<Longrightarrow> find P xs = Some x"
proof (induction xs)
  case Nil
  then show ?case by simp
next
  case (Cons a xs)
  show ?case
  proof (cases "P a")
    case True
    with Cons.prems(3) have "a = x" by simp
    with True show ?thesis by simp
  next
    case False
    with Cons.prems have "x \<in> set xs" by auto
    moreover from Cons.prems(3) have "\<forall>y \<in> set xs. P y \<longrightarrow> y = x" by simp
    ultimately have "find P xs = Some x" using Cons.IH Cons.prems(2) by blast
    with False show ?thesis by simp
  qed
qed

lemma distinct_map_eq:
  "distinct (map f xs) \<Longrightarrow> x \<in> set xs \<Longrightarrow> y \<in> set xs \<Longrightarrow> f x = f y \<Longrightarrow> x = y"
  by (meson distinct_map inj_onD)

lemma filter_neq_remove1:
  "distinct (map f xs) \<Longrightarrow> x \<in> set xs \<Longrightarrow> filter (\<lambda>y. f y \<noteq> f x) xs = remove1 x xs"
proof (induction xs)
  case Nil
  then show ?case by simp
next
  case (Cons b xs)
  show ?case
  proof (cases "b = x")
    case True
    from Cons.prems(1) have "f b \<notin> f ` set xs" by simp
    with True have "\<forall>c \<in> set xs. f c \<noteq> f x" by (metis image_eqI)
    then have "filter (\<lambda>c. f c \<noteq> f x) xs = xs" by (simp add: filter_id_conv)
    with True show ?thesis by simp
  next
    case False
    with Cons.prems have x: "x \<in> set xs" and d: "distinct (map f xs)" by auto
    from Cons.prems(1) x have "f b \<noteq> f x" by (metis distinct.simps(2) image_eqI list.simps(9) set_map)
    with False Cons.IH [OF d x] show ?thesis by simp
  qed
qed

lemma select_appointment_unique:
  assumes "schema_ok s" and "a \<in> set (appointments s)"
  shows "select_appointment s (a_id a) = Some a"
proof -
  from assms have d: "distinct (map a_id (appointments s))" by (simp add: schema_ok_def)
  have "\<forall>y \<in> set (appointments s). a_id y = a_id a \<longrightarrow> y = a"
    using distinct_map_eq [OF d] assms(2) by blast
  with assms(2) show ?thesis
    unfolding select_appointment_def by (intro find_unique) simp_all
qed

lemma select_appointment_None:
  "(\<forall>a \<in> set (appointments s). a_id a \<noteq> apptId) \<Longrightarrow> select_appointment s apptId = None"
  unfolding select_appointment_def by (simp add: find_None_iff)

lemma select_own_slot_unique:
  assumes "schema_ok s" and "ds \<in> set (doctor_slots s)"
  shows "select_own_slot s (ds_id ds) (ds_doctor_user_id ds) = Some ds"
proof -
  from assms have d: "distinct (map ds_id (doctor_slots s))" by (simp add: schema_ok_def)
  have "\<forall>y \<in> set (doctor_slots s).
          ds_id y = ds_id ds \<and> ds_doctor_user_id y = ds_doctor_user_id ds \<longrightarrow> y = ds"
    using distinct_map_eq [OF d] assms(2) by blast
  with assms(2) show ?thesis
    unfolding select_own_slot_def by (intro find_unique) simp_all
qed

lemma select_slot_unique:
  assumes "schema_ok s" and "owners_are_doctors s" and "ds \<in> set (doctor_slots s)"
  shows "select_slot s (ds_id ds) = Some ds"
proof -
  from assms have d: "distinct (map ds_id (doctor_slots s))" by (simp add: schema_ok_def)
  have u: "\<forall>y \<in> set (doctor_slots s).
          ds_id y = ds_id ds \<and> map_of (users s) (ds_doctor_user_id y) = Some Doctor \<longrightarrow> y = ds"
    using distinct_map_eq [OF d] assms(3) by blast
  from assms(2,3) have "map_of (users s) (ds_doctor_user_id ds) = Some Doctor"
    by (simp add: owners_are_doctors_def)
  with assms(3) u show ?thesis
    unfolding select_slot_def by (intro find_unique) simp_all
qed

lemma select_slot_None:
  "(\<forall>ds \<in> set (doctor_slots s). ds_id ds \<noteq> sid) \<Longrightarrow> select_slot s sid = None"
  unfolding select_slot_def by (auto simp add: find_None_iff)

section \<open>Cancellation: lookup and authorization\<close>

text \<open>
  C6. Cancelling answers \<open>NotFound\<close> when no appointment has the given id. When the
  appointment exists and the caller is neither its patient with the role patient nor its
  doctor with the role doctor, it answers \<open>Forbidden\<close> and the store (appointment and
  slot included) is the one before the request.
\<close>

theorem cancel_not_found_or_forbidden:
  "schema_ok s \<Longrightarrow>
   ((\<forall>a \<in> set (appointments s). a_id a \<noteq> apptId) \<longrightarrow>
      delete_appointment u apptId s = (Inl (NotFound, ''Appointment not found''), s))
   \<and> (\<forall>a \<in> set (appointments s).
        a_id a = apptId
        \<and> \<not> (a_patient_user_id a = u_id u \<and> u_role u = Patient)
        \<and> \<not> (a_doctor_user_id a = u_id u \<and> u_role u = Doctor) \<longrightarrow>
        delete_appointment u apptId s
          = (Inl (Forbidden, ''Not authorized to cancel this appointment''), s))"
proof (intro conjI impI ballI)
  assume "\<forall>a \<in> set (appointments s). a_id a \<noteq> apptId"
  then show "delete_appointment u apptId s = (Inl (NotFound, ''Appointment not found''), s)"
    by (simp add: delete_appointment_def select_appointment_None)
next
  fix a
  assume ok: "schema_ok s" and a: "a \<in> set (appointments s)"
    and h: "a_id a = apptId
        \<and> \<not> (a_patient_user_id a = u_id u \<and> u_role u = Patient)
        \<and> \<not> (a_doctor_user_id a = u_id u \<and> u_role u = Doctor)"
  from select_appointment_unique [OF ok a] h
  have "select_appointment s apptId = Some a" by simp
  with h show "delete_appointment u apptId s
          = (Inl (Forbidden, ''Not authorized to cancel this appointment''), s)"
    by (simp add: delete_appointment_def Let_def)
qed

lemma sample_store_ok:
  "schema_ok sample_store" "owners_are_doctors sample_store" "booking_invariant sample_store"
  by (simp_all add: schema_ok_def owners_are_doctors_def booking_invariant_def appts_at_def
        sample_store_def slot_key_def appt_key_def)

theorem cancel_not_found_or_forbidden_witness:
  "schema_ok sample_store
   \<and> delete_appointment \<lparr>u_id = 3, u_role = Patient\<rparr> 7 sample_store
       = (Inl (NotFound, ''Appointment not found''), sample_store)
   \<and> delete_appointment \<lparr>u_id = 3, u_role = Patient\<rparr> 1 sample_store
       = (Inl (Forbidden, ''Not authorized to cancel this appointment''), sample_store)"
proof -
  have ok: "schema_ok sample_store" by (rule sample_store_ok)
  from cancel_not_found_or_forbidden [OF ok, of 7 "\<lparr>u_id = 3, u_role = Patient\<rparr>"]
  have nf: "delete_appointment \<lparr>u_id = 3, u_role = Patient\<rparr> 7 sample_store
       = (Inl (NotFound, ''Appointment not found''), sample_store)"
    by (simp add: sample_store_def)
  from cancel_not_found_or_forbidden [OF ok, of 1 "\<lparr>u_id = 3, u_role = Patient\<rparr>"]
  have "delete_appointment \<lparr>u_id = 3, u_role = Patient\<rparr> 1 sample_store
       = (Inl (Forbidden, ''Not authorized to cancel this appointment''), sample_store)"
    by (simp add: sample_store_def)
  with ok nf show ?thesis by simp
qed

section \<open>Cancellation when no slot row matches\<close>

lemma free_slot_no_match:
  "(\<forall>ds \<in> set tbl. slot_key ds \<noteq> (d, t)) \<Longrightarrow> free_slot d t tbl = tbl"
  unfolding free_slot_def by (intro map_idI) (auto simp add: slot_key_def)

text \<open>
  C9. Releasing the slot is best effort: when no row of \<^verbatim>\<open>doctor_slots\<close> has the
  appointment's \<^verbatim>\<open>(doctor_user_id, scheduled_at)\<close>, the cancellation by the patient or
  the doctor still succeeds; the appointment row is gone from the committed store and
  nothing else has changed.
\<close>

theorem cancel_without_matching_slot:
  assumes "schema_ok s" and "a \<in> set (appointments s)"
    and "(a_patient_user_id a = u_id u \<and> u_role u = Patient)
         \<or> (a_doctor_user_id a = u_id u \<and> u_role u = Doctor)"
    and "\<forall>ds \<in> set (doctor_slots s). slot_key ds \<noteq> appt_key a"
  shows "delete_appointment u (a_id a) s
           = (Inr ''Appointment canceled'', s\<lparr>appointments := remove1 a (appointments s)\<rparr>)
         \<and> a \<notin> set (remove1 a (appointments s))"
proof -
  from assms(1) have d: "distinct (map a_id (appointments s))" by (simp add: schema_ok_def)
  then have d': "distinct (appointments s)" by (simp add: distinct_map)
  have sel: "select_appointment s (a_id a) = Some a"
    by (rule select_appointment_unique [OF assms(1,2)])
  have del: "delete_appointment_row (a_id a) (appointments s) = remove1 a (appointments s)"
    unfolding delete_appointment_row_def by (rule filter_neq_remove1 [OF d assms(2)])
  have fr: "free_slot (a_doctor_user_id a) (a_scheduled_at a) (doctor_slots s) = doctor_slots s"
    using assms(4) by (intro free_slot_no_match) (simp add: appt_key_def)
  from assms(3) sel del fr
  have "delete_appointment u (a_id a) s
           = (Inr ''Appointment canceled'', s\<lparr>appointments := remove1 a (appointments s)\<rparr>)"
    by (auto simp add: delete_appointment_def cancel_tx_def Let_def)
  moreover from d' have "a \<notin> set (remove1 a (appointments s))" by simp
  ultimately show ?thesis by simp
qed

theorem cancel_without_matching_slot_witness:
  "delete_appointment \<lparr>u_id = 2, u_role = Patient\<rparr> 1 orphan_store
     = (Inr ''Appointment canceled'', orphan_store\<lparr>appointments := []\<rparr>)"
proof -
  let ?a = "\<lparr>a_id = 1, a_patient_user_id = 2, a_doctor_user_id = 1, a_scheduled_at = 300,
             a_status = ''booked'', a_created_at = 20\<rparr>"
  have ok: "schema_ok orphan_store"
    by (simp add: schema_ok_def orphan_store_def slot_key_def appt_key_def)
  have mem: "?a \<in> set (appointments orphan_store)" by (simp add: orphan_store_def)
  have auth: "(a_patient_user_id ?a = u_id \<lparr>u_id = 2, u_role = Patient\<rparr>
                 \<and> u_role \<lparr>u_id = 2, u_role = Patient\<rparr> = Patient)
              \<or> (a_doctor_user_id ?a = u_id \<lparr>u_id = 2, u_role = Patient\<rparr>
                 \<and> u_role \<lparr>u_id = 2, u_role = Patient\<rparr> = Doctor)" by simp
  have none: "\<forall>ds \<in> set (doctor_slots orphan_store). slot_key ds \<noteq> appt_key ?a"
    by (simp add: orphan_store_def slot_key_def appt_key_def)
  from cancel_without_matching_slot [OF ok mem auth none]
  show ?thesis by (simp add: orphan_store_def)
qed

section \<open>Deleting a slot\<close>

text \<open>
  C8. For a doctor: deleting an own slot that is booked answers \<open>Conflict\<close> and leaves
  the store as it was; deleting an own free slot removes the row; a slot id that no row
  has, or whose row belongs to another doctor, answers \<open>NotFound\<close>.
\<close>

theorem delete_slot_outcomes:
  assumes "schema_ok s" and "u_role u = Doctor"
  shows
   "(\<forall>ds \<in> set (doctor_slots s).
        ds_id ds = slotId \<and> ds_doctor_user_id ds = u_id u \<and> is_booked ds \<longrightarrow>
        delete_doctor_slot u slotId s = (Inl (Conflict, ''Cannot delete a booked slot''), s))
    \<and> (\<forall>ds \<in> set (doctor_slots s).
        ds_id ds = slotId \<and> ds_doctor_user_id ds = u_id u \<and> \<not> is_booked ds \<longrightarrow>
        delete_doctor_slot u slotId s
          = (Inr ''Slot deleted'', s\<lparr>doctor_slots := remove1 ds (doctor_slots s)\<rparr>)
        \<and> ds \<notin> set (remove1 ds (doctor_slots s)))
    \<and> ((\<forall>ds \<in> set (doctor_slots s). ds_id ds = slotId \<longrightarrow> ds_doctor_user_id ds \<noteq> u_id u) \<longrightarrow>
        delete_doctor_slot u slotId s = (Inl (NotFound, ''Slot not found''), s))"
proof -
  from assms(1) have d: "distinct (map ds_id (doctor_slots s))" by (simp add: schema_ok_def)
  then have d': "distinct (doctor_slots s)" by (simp add: distinct_map)
  from assms(2) have role: "authorizeRoles [Doctor] u" by (simp add: authorizeRoles_def)
  have booked: "delete_doctor_slot u slotId s = (Inl (Conflict, ''Cannot delete a booked slot''), s)"
    if "ds \<in> set (doctor_slots s)" "ds_id ds = slotId" "ds_doctor_user_id ds = u_id u"
       "is_booked ds" for ds
  proof -
    from select_own_slot_unique [OF assms(1) that(1)] that(2,3)
    have "select_own_slot s slotId (u_id u) = Some ds" by simp
    with role that(4) show ?thesis by (simp add: delete_doctor_slot_def)
  qed
  have free: "delete_doctor_slot u slotId s
          = (Inr ''Slot deleted'', s\<lparr>doctor_slots := remove1 ds (doctor_slots s)\<rparr>)
        \<and> ds \<notin> set (remove1 ds (doctor_slots s))"
    if "ds \<in> set (doctor_slots s)" "ds_id ds = slotId" "ds_doctor_user_id ds = u_id u"
       "\<not> is_booked ds" for ds
  proof -
    from select_own_slot_unique [OF assms(1) that(1)] that(2,3)
    have sel: "select_own_slot s slotId (u_id u) = Some ds" by simp
    from filter_neq_remove1 [OF d that(1)] that(2)
    have "delete_slot_row slotId (doctor_slots s) = remove1 ds (doctor_slots s)"
      by (simp add: delete_slot_row_def)
    with role sel that(4) d' show ?thesis by (simp add: delete_doctor_slot_def)
  qed
  have absent: "delete_doctor_slot u slotId s = (Inl (NotFound, ''Slot not found''), s)"
    if "\<forall>ds \<in> set (doctor_slots s). ds_id ds = slotId \<longrightarrow> ds_doctor_user_id ds \<noteq> u_id u"
  proof -
    from that have "select_own_slot s slotId (u_id u) = None"
      unfolding select_own_slot_def by (auto simp add: find_None_iff)
    with role show ?thesis by (simp add: delete_doctor_slot_def)
  qed
  from booked free absent show ?thesis by blast
qed

theorem delete_slot_outcomes_witness:
  "delete_doctor_slot \<lparr>u_id = 1, u_role = Doctor\<rparr> 2 sample_store
     = (Inl (Conflict, ''Cannot delete a booked slot''), sample_store)
   \<and> delete_doctor_slot \<lparr>u_id = 1, u_role = Doctor\<rparr> 1 sample_store
     = (Inr ''Slot deleted'', sample_store\<lparr>doctor_slots :=
          [\<lparr>ds_id = 2, ds_doctor_user_id = 1, slot_at = 200, is_booked = True,
            ds_created_at = 10\<rparr>]\<rparr>)
   \<and> delete_doctor_slot \<lparr>u_id = 4, u_role = Doctor\<rparr> 1 sample_store
     = (Inl (NotFound, ''Slot not found''), sample_store)
   \<and> delete_doctor_slot \<lparr>u_id = 1, u_role = Doctor\<rparr> 9 sample_store
     = (Inl (NotFound, ''Slot not found''), sample_store)"
proof -
  have ok: "schema_ok sample_store" by (rule sample_store_ok)
  have r1: "u_role \<lparr>u_id = 1, u_role = Doctor\<rparr> = Doctor"
    and r4: "u_role \<lparr>u_id = 4, u_role = Doctor\<rparr> = Doctor" by simp_all
  from delete_slot_outcomes [OF ok r1, of 2]
  have a: "delete_doctor_slot \<lparr>u_id = 1, u_role = Doctor\<rparr> 2 sample_store
     = (Inl (Conflict, ''Cannot delete a booked slot''), sample_store)"
    by (simp add: sample_store_def)
  from delete_slot_outcomes [OF ok r1, of 1]
  have b: "delete_doctor_slot \<lparr>u_id = 1, u_role = Doctor\<rparr> 1 sample_store
     = (Inr ''Slot deleted'', sample_store\<lparr>doctor_slots :=
          [\<lparr>ds_id = 2, ds_doctor_user_id = 1, slot_at = 200, is_booked = True,
            ds_created_at = 10\<rparr>]\<rparr>)"
    by (simp add: sample_store_def)
  from delete_slot_outcomes [OF ok r4, of 1]
  have c: "delete_doctor_slot \<lparr>u_id = 4, u_role = Doctor\<rparr> 1 sample_store
     = (Inl (NotFound, ''Slot not found''), sample_store)"
    by (simp add: sample_store_def)
  from delete_slot_outcomes [OF ok r1, of 9]
  have d: "delete_doctor_slot \<lparr>u_id = 1, u_role = Doctor\<rparr> 9 sample_store
     = (Inl (NotFound, ''Slot not found''), sample_store)"
    by (simp add: sample_store_def)
  from a b c d show ?thesis by simp
qed

section \<open>Claiming a slot\<close>

lemma distinct_map_filter_one:
  "distinct (map f xs) \<Longrightarrow> k \<in> set (map f xs) \<Longrightarrow> length (filter (\<lambda>a. f a = k) xs) = 1"
proof (induction xs)
  case Nil
  then show ?case by simp
next
  case (Cons b xs)
  show ?case
  proof (cases "f b = k")
    case True
    with Cons.prems(1) have "\<forall>c \<in> set xs. f c \<noteq> k" by (metis distinct.simps(2) image_eqI list.simps(9) set_map)
    then have "filter (\<lambda>a. f a = k) xs = []" by (simp add: filter_empty_conv)
    with True show ?thesis by simp
  next
    case False
    with Cons.prems have "k \<in> set (map f xs)" and "distinct (map f xs)" by auto
    with Cons.IH False show ?thesis by simp
  qed
qed

lemma filter_absent:
  "k \<notin> set (map f xs) \<Longrightarrow> filter (\<lambda>a. f a = k) xs = []"
  by (auto simp add: filter_empty_conv)

text \<open>Under the invariant, no appointment holds the key of a free slot.\<close>

lemma free_slot_has_no_appointment:
  assumes "schema_ok s" and "booking_invariant s"
    and "ds \<in> set (doctor_slots s)" and "\<not> is_booked ds"
  shows "slot_key ds \<notin> set (map appt_key (appointments s))"
proof
  assume "slot_key ds \<in> set (map appt_key (appointments s))"
  moreover from assms(1) have "distinct (map appt_key (appointments s))"
    by (simp add: schema_ok_def)
  ultimately have "length (appts_at s (slot_key ds)) = 1"
    unfolding appts_at_def by (intro distinct_map_filter_one)
  with assms(2,3) have "is_booked ds" by (simp add: booking_invariant_def)
  with assms(4) show False by simp
qed

lemma mark_booked_table:
  assumes "distinct (map ds_id tbl)" and "ds \<in> set tbl" and "\<not> is_booked ds"
  shows "fst (mark_booked (ds_id ds) tbl)
           = map (\<lambda>x. if x = ds then ds\<lparr>is_booked := True\<rparr> else x) tbl"
proof -
  have "(if ds_id x = ds_id ds \<and> \<not> is_booked x then x\<lparr>is_booked := True\<rparr> else x)
          = (if x = ds then ds\<lparr>is_booked := True\<rparr> else x)" if "x \<in> set tbl" for x
  proof (cases "x = ds")
    case True
    with assms(3) show ?thesis by simp
  next
    case False
    with distinct_map_eq [OF assms(1) that assms(2)] have "ds_id x \<noteq> ds_id ds" by blast
    with False show ?thesis by simp
  qed
  then show ?thesis by (simp add: mark_booked_def)
qed

lemma mark_booked_affected:
  assumes "ds \<in> set tbl" and "\<not> is_booked ds"
  shows "snd (mark_booked (ds_id ds) tbl) \<noteq> 0"
proof -
  from assms have "ds \<in> set (filter (\<lambda>x. ds_id x = ds_id ds \<and> \<not> is_booked x) tbl)" by simp
  then have "filter (\<lambda>x. ds_id x = ds_id ds \<and> \<not> is_booked x) tbl \<noteq> []" by force
  then show ?thesis by (simp add: mark_booked_def)
qed

text \<open>
  The handler up to the appointment insert: for a free slot of the table the lookup
  finds the row, both booked checks pass, and the outcome is that of the insert.
\<close>

lemma claim_reaches_insert:
  assumes "schema_ok s" and "owners_are_doctors s" and "u_role u = Patient"
    and "ds \<in> set (doctor_slots s)" and "\<not> is_booked ds"
  shows "post_appointments via_date now u (Some (ds_id ds)) s =
     (case insert_appointment now (u_id u) (ds_doctor_user_id ds)
             (via_date (slot_at ds)) ''booked''
             (s\<lparr>doctor_slots := fst (mark_booked (ds_id ds) (doctor_slots s))\<rparr>) of
        None \<Rightarrow> (Inl (Internal, ''Failed to book slot''), s)
      | Some (insertId, s') \<Rightarrow>
          (Inr \<lparr>b_id = insertId, b_patient_user_id = u_id u,
                b_doctor_user_id = ds_doctor_user_id ds,
                b_scheduled_at = via_date (slot_at ds), b_slot_id = ds_id ds\<rparr>, s'))"
proof -
  from assms(1,4) have "0 < ds_id ds" unfolding schema_ok_def by blast
  then have pos: "ds_id ds \<noteq> 0" by simp
  from assms(3) have role: "authorizeRoles [Patient] u" by (simp add: authorizeRoles_def)
  have sel: "select_slot s (ds_id ds) = Some ds"
    by (rule select_slot_unique [OF assms(1,2,4)])
  have aff: "snd (mark_booked (ds_id ds) (doctor_slots s)) \<noteq> 0"
    by (rule mark_booked_affected [OF assms(4,5)])
  have tx: "booking_tx via_date now (u_id u) (ds_id ds) ds s =
     (case insert_appointment now (u_id u) (ds_doctor_user_id ds)
             (via_date (slot_at ds)) ''booked''
             (s\<lparr>doctor_slots := fst (mark_booked (ds_id ds) (doctor_slots s))\<rparr>) of
        None \<Rightarrow> (Inl (Internal, ''Failed to book slot''), s)
      | Some (insertId, s') \<Rightarrow>
          (Inr \<lparr>b_id = insertId, b_patient_user_id = u_id u,
                b_doctor_user_id = ds_doctor_user_id ds,
                b_scheduled_at = via_date (slot_at ds), b_slot_id = ds_id ds\<rparr>, s'))"
    using aff by (simp add: booking_tx_def split_beta Let_def)
  from pos role sel assms(5) tx show ?thesis by (simp add: post_appointments_def)
qed

text \<open>
  A free slot whose time survives the round trip, held by no appointment, claimed by an
  authenticated patient.
\<close>

lemma claim_free_slot:
  assumes "schema_ok s" and "owners_are_doctors s" and "authenticated s u"
    and "u_role u = Patient" and "ds \<in> set (doctor_slots s)" and "\<not> is_booked ds"
    and "slot_key ds \<notin> set (map appt_key (appointments s))"
    and "via_date (slot_at ds) = slot_at ds"
  shows "post_appointments via_date now u (Some (ds_id ds)) s =
     (Inr \<lparr>b_id = appt_auto_inc s, b_patient_user_id = u_id u,
           b_doctor_user_id = ds_doctor_user_id ds,
           b_scheduled_at = slot_at ds, b_slot_id = ds_id ds\<rparr>,
      s\<lparr>doctor_slots := map (\<lambda>x. if x = ds then ds\<lparr>is_booked := True\<rparr> else x) (doctor_slots s),
        appointments := appointments s @
          [\<lparr>a_id = appt_auto_inc s, a_patient_user_id = u_id u,
            a_doctor_user_id = ds_doctor_user_id ds, a_scheduled_at = slot_at ds,
            a_status = ''booked'', a_created_at = now\<rparr>],
        appt_auto_inc := Suc (appt_auto_inc s)\<rparr>)"
proof -
  from assms(1) have d: "distinct (map ds_id (doctor_slots s))" by (simp add: schema_ok_def)
  from assms(3) have pu: "map_of (users s) (u_id u) \<noteq> None" by (simp add: authenticated_def)
  from assms(1,5) have du: "map_of (users s) (ds_doctor_user_id ds) \<noteq> None"
    unfolding schema_ok_def by blast
  from assms(7) have k: "(ds_doctor_user_id ds, slot_at ds) \<notin> set (map appt_key (appointments s))"
    by (simp add: slot_key_def)
  have tbl: "fst (mark_booked (ds_id ds) (doctor_slots s))
           = map (\<lambda>x. if x = ds then ds\<lparr>is_booked := True\<rparr> else x) (doctor_slots s)"
    by (rule mark_booked_table [OF d assms(5,6)])
  show ?thesis
    unfolding claim_reaches_insert [OF assms(1,2,4,5,6)] tbl assms(8)
    using pu du k by (simp add: insert_appointment_def)
qed

section \<open>A failing appointment insert\<close>

text \<open>
  C4, as the specification states it, does not hold: in \<open>drifted_store\<close> the slot is
  free and the conditional update succeeds, the insert violates \<^verbatim>\<open>ux_appt_doctor_time\<close>,
  and the handler answers 500 (\<open>Internal\<close>), not 409 (\<open>Conflict\<close>). The time of the slot
  is one that the round trip through a \<^verbatim>\<open>Date\<close> leaves as it is.
\<close>

theorem insert_failure_answers_internal_example:
  "schema_ok drifted_store
   \<and> gap_zone 100 = 100
   \<and> snd (mark_booked 1 (doctor_slots drifted_store)) = 1
   \<and> insert_appointment 50 3 1 (gap_zone 100) ''booked''
        (drifted_store\<lparr>doctor_slots := fst (mark_booked 1 (doctor_slots drifted_store))\<rparr>) = None
   \<and> post_appointments gap_zone 50 \<lparr>u_id = 3, u_role = Patient\<rparr> (Some 1) drifted_store
        = (Inl (Internal, ''Failed to book slot''), drifted_store)
   \<and> failure_status (post_appointments gap_zone 50 \<lparr>u_id = 3, u_role = Patient\<rparr> (Some 1) drifted_store)
        \<noteq> Some Conflict"
  by (simp add: drifted_store_def schema_ok_def slot_key_def appt_key_def mark_booked_def
        insert_appointment_def post_appointments_def authorizeRoles_def select_slot_def
        booking_tx_def failure_status_def gap_zone_def)

text \<open>
  C4 as amended. When a patient claims a free slot and the appointment insert fails, for
  whatever reason, the transaction is rolled back: the committed store is the one before
  the request, so the slot is still free; the handler answers 500 (\<open>Internal\<close>,
  "Failed to book slot"). This holds whatever the round trip of the slot's time through a
  \<^verbatim>\<open>Date\<close> gives.
\<close>

theorem insert_failure_rolls_back:
  assumes "schema_ok s" and "owners_are_doctors s" and "u_role u = Patient"
    and "ds \<in> set (doctor_slots s)" and "\<not> is_booked ds"
    and "insert_appointment now (u_id u) (ds_doctor_user_id ds) (via_date (slot_at ds))
           ''booked'' (s\<lparr>doctor_slots := fst (mark_booked (ds_id ds) (doctor_slots s))\<rparr>) = None"
  shows "post_appointments via_date now u (Some (ds_id ds)) s
           = (Inl (Internal, ''Failed to book slot''), s)"
  unfolding claim_reaches_insert [OF assms(1-5)] using assms(6) by simp

theorem insert_failure_rolls_back_witness:
  "post_appointments gap_zone 50 \<lparr>u_id = 3, u_role = Patient\<rparr> (Some 1) drifted_store
     = (Inl (Internal, ''Failed to book slot''), drifted_store)"
proof -
  let ?ds = "\<lparr>ds_id = 1, ds_doctor_user_id = 1, slot_at = 100, is_booked = False,
              ds_created_at = 10\<rparr>"
  let ?u = "\<lparr>u_id = 3, u_role = Patient\<rparr>"
  have ok: "schema_ok drifted_store"
    by (simp add: drifted_store_def schema_ok_def slot_key_def appt_key_def)
  have own: "owners_are_doctors drifted_store"
    by (simp add: drifted_store_def owners_are_doctors_def)
  have role: "u_role ?u = Patient" by simp
  have mem: "?ds \<in> set (doctor_slots drifted_store)" by (simp add: drifted_store_def)
  have free: "\<not> is_booked ?ds" by simp
  have fails: "insert_appointment 50 (u_id ?u) (ds_doctor_user_id ?ds) (gap_zone (slot_at ?ds))
           ''booked'' (drifted_store\<lparr>doctor_slots :=
              fst (mark_booked (ds_id ?ds) (doctor_slots drifted_store))\<rparr>) = None"
    by (simp add: drifted_store_def insert_appointment_def appt_key_def gap_zone_def)
  from insert_failure_rolls_back [where via_date = gap_zone, OF ok own role mem free fails]
  show ?thesis by simp
qed

section \<open>The outcomes of a claim\<close>

text \<open>
  C2. The first two outcomes are as the specification says (lemma \<open>claim_outcomes\<close>
  below). The third is not: the appointment does not always carry the slot's time. In
  \<open>gap_store\<close>, with the process in the zone \<open>gap_zone\<close>, the slot is at 02:30 (9000); the
  handler reads it as a \<^verbatim>\<open>Date\<close> and inserts the appointment at 03:30 (12600), which is
  also the time of the response.
\<close>

theorem claim_in_gap_carries_another_time:
  "select_slot gap_store 1
     = Some \<lparr>ds_id = 1, ds_doctor_user_id = 1, slot_at = 9000, is_booked = False,
             ds_created_at = 10\<rparr>
   \<and> post_appointments gap_zone 50 \<lparr>u_id = 2, u_role = Patient\<rparr> (Some 1) gap_store
     = (Inr \<lparr>b_id = 1, b_patient_user_id = 2, b_doctor_user_id = 1, b_scheduled_at = 12600,
             b_slot_id = 1\<rparr>,
        gap_store
          \<lparr>doctor_slots :=
             [\<lparr>ds_id = 1, ds_doctor_user_id = 1, slot_at = 9000, is_booked = True,
               ds_created_at = 10\<rparr>],
           appointments :=
             [\<lparr>a_id = 1, a_patient_user_id = 2, a_doctor_user_id = 1, a_scheduled_at = 12600,
               a_status = ''booked'', a_created_at = 50\<rparr>],
           appt_auto_inc := 2\<rparr>)"
  by (simp add: gap_store_def gap_zone_def post_appointments_def authorizeRoles_def
        select_slot_def booking_tx_def mark_booked_def insert_appointment_def appt_key_def)

text \<open>
  Where the time of every slot survives the round trip through a \<^verbatim>\<open>Date\<close>, the handler
  answers a claim as the specification says. In a store that satisfies the schema and the booking invariant, a
  request of an authenticated patient that carries a slot id answers \<open>NotFound\<close> when no
  slot has the id; answers \<open>Conflict\<close> with the store unchanged when the slot is flagged
  booked; and for a free slot answers with a new appointment (an id no appointment had)
  that carries the slot's doctor and time, and commits a store in which that appointment
  is the last row and the slot is flagged booked.
\<close>

lemma claim_outcomes:
  assumes "schema_ok s" and "owners_are_doctors s" and "booking_invariant s"
    and "authenticated s u" and "u_role u = Patient" and "sid \<noteq> 0"
    and "times_survive via_date s"
  shows
   "((\<forall>ds \<in> set (doctor_slots s). ds_id ds \<noteq> sid) \<longrightarrow>
        post_appointments via_date now u (Some sid) s = (Inl (NotFound, ''Slot not found''), s))
    \<and> (\<forall>ds \<in> set (doctor_slots s). ds_id ds = sid \<and> is_booked ds \<longrightarrow>
        post_appointments via_date now u (Some sid) s = (Inl (Conflict, ''Slot already booked''), s))
    \<and> (\<forall>ds \<in> set (doctor_slots s). ds_id ds = sid \<and> \<not> is_booked ds \<longrightarrow>
        (\<exists>s'. post_appointments via_date now u (Some sid) s
                = (Inr \<lparr>b_id = appt_auto_inc s, b_patient_user_id = u_id u,
                        b_doctor_user_id = ds_doctor_user_id ds,
                        b_scheduled_at = slot_at ds, b_slot_id = sid\<rparr>, s')
            \<and> appointments s' = appointments s @
                 [\<lparr>a_id = appt_auto_inc s, a_patient_user_id = u_id u,
                   a_doctor_user_id = ds_doctor_user_id ds, a_scheduled_at = slot_at ds,
                   a_status = ''booked'', a_created_at = now\<rparr>]
            \<and> appt_auto_inc s \<notin> set (map a_id (appointments s))
            \<and> doctor_slots s'
                 = map (\<lambda>x. if x = ds then ds\<lparr>is_booked := True\<rparr> else x) (doctor_slots s)
            \<and> ds\<lparr>is_booked := True\<rparr> \<in> set (doctor_slots s')))"
proof -
  from assms(5) have role: "authorizeRoles [Patient] u" by (simp add: authorizeRoles_def)
  have absent: "post_appointments via_date now u (Some sid) s = (Inl (NotFound, ''Slot not found''), s)"
    if "\<forall>ds \<in> set (doctor_slots s). ds_id ds \<noteq> sid"
    using role assms(6) select_slot_None [OF that] by (simp add: post_appointments_def)
  have taken: "post_appointments via_date now u (Some sid) s = (Inl (Conflict, ''Slot already booked''), s)"
    if "ds \<in> set (doctor_slots s)" "ds_id ds = sid" "is_booked ds" for ds
  proof -
    from select_slot_unique [OF assms(1,2) that(1)] that(2)
    have "select_slot s sid = Some ds" by simp
    with role assms(6) that(3) show ?thesis by (simp add: post_appointments_def)
  qed
  have fresh: "appt_auto_inc s \<notin> set (map a_id (appointments s))"
  proof
    assume "appt_auto_inc s \<in> set (map a_id (appointments s))"
    then obtain a where "a \<in> set (appointments s)" "a_id a = appt_auto_inc s" by auto
    moreover from assms(1) have "\<forall>a \<in> set (appointments s). a_id a < appt_auto_inc s"
      unfolding schema_ok_def by blast
    ultimately show False by auto
  qed
  have free: "\<exists>s'. post_appointments via_date now u (Some sid) s
                = (Inr \<lparr>b_id = appt_auto_inc s, b_patient_user_id = u_id u,
                        b_doctor_user_id = ds_doctor_user_id ds,
                        b_scheduled_at = slot_at ds, b_slot_id = sid\<rparr>, s')
            \<and> appointments s' = appointments s @
                 [\<lparr>a_id = appt_auto_inc s, a_patient_user_id = u_id u,
                   a_doctor_user_id = ds_doctor_user_id ds, a_scheduled_at = slot_at ds,
                   a_status = ''booked'', a_created_at = now\<rparr>]
            \<and> appt_auto_inc s \<notin> set (map a_id (appointments s))
            \<and> doctor_slots s'
                 = map (\<lambda>x. if x = ds then ds\<lparr>is_booked := True\<rparr> else x) (doctor_slots s)
            \<and> ds\<lparr>is_booked := True\<rparr> \<in> set (doctor_slots s')"
    if "ds \<in> set (doctor_slots s)" "ds_id ds = sid" "\<not> is_booked ds" for ds
  proof -
    have k: "slot_key ds \<notin> set (map appt_key (appointments s))"
      by (rule free_slot_has_no_appointment [OF assms(1,3) that(1,3)])
    from that(1) have booked: "ds\<lparr>is_booked := True\<rparr>
        \<in> set (map (\<lambda>x. if x = ds then ds\<lparr>is_booked := True\<rparr> else x) (doctor_slots s))"
      by force
    from assms(7) that(1) have tz: "via_date (slot_at ds) = slot_at ds"
      by (simp add: times_survive_def)
    from claim_free_slot [where via_date = via_date, OF assms(1,2,4,5) that(1,3) k tz, where now = now] that(2) fresh booked
    show ?thesis by simp
  qed
  from absent taken free show ?thesis by blast
qed

lemma claim_outcomes_example:
  "post_appointments gap_zone 50 \<lparr>u_id = 3, u_role = Patient\<rparr> (Some 9) sample_store
     = (Inl (NotFound, ''Slot not found''), sample_store)
   \<and> post_appointments gap_zone 50 \<lparr>u_id = 3, u_role = Patient\<rparr> (Some 2) sample_store
     = (Inl (Conflict, ''Slot already booked''), sample_store)
   \<and> fst (post_appointments gap_zone 50 \<lparr>u_id = 3, u_role = Patient\<rparr> (Some 1) sample_store)
     = Inr \<lparr>b_id = 2, b_patient_user_id = 3, b_doctor_user_id = 1, b_scheduled_at = 100,
            b_slot_id = 1\<rparr>
   \<and> doctor_slots (snd (post_appointments gap_zone 50 \<lparr>u_id = 3, u_role = Patient\<rparr> (Some 1) sample_store))
     = [\<lparr>ds_id = 1, ds_doctor_user_id = 1, slot_at = 100, is_booked = True, ds_created_at = 10\<rparr>,
        \<lparr>ds_id = 2, ds_doctor_user_id = 1, slot_at = 200, is_booked = True, ds_created_at = 10\<rparr>]"
proof -
  let ?u = "\<lparr>u_id = 3, u_role = Patient\<rparr>"
  have auth: "authenticated sample_store ?u" by (simp add: authenticated_def sample_store_def)
  have role: "u_role ?u = Patient" by simp
  have tz: "times_survive gap_zone sample_store"
    by (simp add: times_survive_def sample_store_def gap_zone_def)
  note th = claim_outcomes [OF sample_store_ok auth role _ tz, where now = 50]
  from th [where sid = 9] have a: "post_appointments gap_zone 50 ?u (Some 9) sample_store
     = (Inl (NotFound, ''Slot not found''), sample_store)"
    by (simp add: sample_store_def)
  from th [where sid = 2] have b: "post_appointments gap_zone 50 ?u (Some 2) sample_store
     = (Inl (Conflict, ''Slot already booked''), sample_store)"
    by (simp add: sample_store_def)
  let ?ds = "\<lparr>ds_id = 1, ds_doctor_user_id = 1, slot_at = 100, is_booked = False,
              ds_created_at = 10\<rparr>"
  have mem: "?ds \<in> set (doctor_slots sample_store)" by (simp add: sample_store_def)
  have nz: "(1::nat) \<noteq> 0" by simp
  from th [OF nz, THEN conjunct2, THEN conjunct2, THEN bspec, OF mem]
  obtain s' where r: "post_appointments gap_zone 50 ?u (Some 1) sample_store
     = (Inr \<lparr>b_id = appt_auto_inc sample_store, b_patient_user_id = 3, b_doctor_user_id = 1,
            b_scheduled_at = 100, b_slot_id = 1\<rparr>, s')"
    and t: "doctor_slots s'
     = map (\<lambda>x. if x = ?ds then ?ds\<lparr>is_booked := True\<rparr> else x) (doctor_slots sample_store)"
    by auto
  have n: "appt_auto_inc sample_store = 2" by (simp add: sample_store_def)
  have m: "map (\<lambda>x. if x = ?ds then ?ds\<lparr>is_booked := True\<rparr> else x) (doctor_slots sample_store)
     = [\<lparr>ds_id = 1, ds_doctor_user_id = 1, slot_at = 100, is_booked = True, ds_created_at = 10\<rparr>,
        \<lparr>ds_id = 2, ds_doctor_user_id = 1, slot_at = 200, is_booked = True, ds_created_at = 10\<rparr>]"
    by (simp add: sample_store_def)
  from r t n m have c: "fst (post_appointments gap_zone 50 ?u (Some 1) sample_store)
     = Inr \<lparr>b_id = 2, b_patient_user_id = 3, b_doctor_user_id = 1, b_scheduled_at = 100,
            b_slot_id = 1\<rparr>
     \<and> doctor_slots (snd (post_appointments gap_zone 50 ?u (Some 1) sample_store))
     = [\<lparr>ds_id = 1, ds_doctor_user_id = 1, slot_at = 100, is_booked = True, ds_created_at = 10\<rparr>,
        \<lparr>ds_id = 2, ds_doctor_user_id = 1, slot_at = 200, is_booked = True, ds_created_at = 10\<rparr>]"
    by simp
  from a b c show ?thesis by simp
qed

section \<open>The two protocols preserve the schema constraints and the invariant\<close>

lemma find_SomeD: "find P xs = Some x \<Longrightarrow> x \<in> set xs \<and> P x"
  by (induction xs) (auto split: if_splits)

lemma mark_booked_ids: "map ds_id (fst (mark_booked sid tbl)) = map ds_id tbl"
  by (simp add: mark_booked_def)

lemma mark_booked_keys: "map slot_key (fst (mark_booked sid tbl)) = map slot_key tbl"
  by (simp add: mark_booked_def slot_key_def)

lemma free_slot_ids: "map ds_id (free_slot d t tbl) = map ds_id tbl"
  by (simp add: free_slot_def)

lemma free_slot_keys: "map slot_key (free_slot d t tbl) = map slot_key tbl"
  by (simp add: free_slot_def slot_key_def)

text \<open>The store a claim commits: the one it started from, or the one of a successful booking.\<close>

lemma claim_commits:
  "snd (post_appointments via_date now u doctorSlotId s) = s
   \<or> (\<exists>ds. ds \<in> set (doctor_slots s) \<and> \<not> is_booked ds
         \<and> map_of (users s) (u_id u) \<noteq> None
         \<and> map_of (users s) (ds_doctor_user_id ds) \<noteq> None
         \<and> (ds_doctor_user_id ds, via_date (slot_at ds)) \<notin> set (map appt_key (appointments s))
         \<and> snd (post_appointments via_date now u doctorSlotId s)
             = s\<lparr>doctor_slots := fst (mark_booked (ds_id ds) (doctor_slots s)),
                 appointments := appointments s @
                   [\<lparr>a_id = appt_auto_inc s, a_patient_user_id = u_id u,
                     a_doctor_user_id = ds_doctor_user_id ds, a_scheduled_at = via_date (slot_at ds),
                     a_status = ''booked'', a_created_at = now\<rparr>],
                 appt_auto_inc := Suc (appt_auto_inc s)\<rparr>)"
proof (cases "snd (post_appointments via_date now u doctorSlotId s) = s")
  case True
  then show ?thesis by simp
next
  case False
  then obtain sid where sid: "doctorSlotId = Some sid"
    by (cases doctorSlotId) (auto simp add: post_appointments_def)
  from False sid obtain ds where sel: "select_slot s sid = Some ds"
    by (cases "select_slot s sid") (auto simp add: post_appointments_def)
  from sel have mem: "ds \<in> set (doctor_slots s)" and id: "ds_id ds = sid"
    unfolding select_slot_def by (auto dest: find_SomeD)
  from False sid sel have free: "\<not> is_booked ds"
    by (auto simp add: post_appointments_def split: if_splits)
  from False sid sel free have tx: "snd (post_appointments via_date now u doctorSlotId s)
      = snd (booking_tx via_date now (u_id u) sid ds s)"
    by (auto simp add: post_appointments_def split: if_splits)
  let ?s1 = "s\<lparr>doctor_slots := fst (mark_booked sid (doctor_slots s))\<rparr>"
  from False tx obtain r where
    ins: "insert_appointment now (u_id u) (ds_doctor_user_id ds)
           (via_date (slot_at ds)) ''booked'' ?s1 = Some r"
    by (cases "insert_appointment now (u_id u) (ds_doctor_user_id ds)
           (via_date (slot_at ds)) ''booked'' ?s1")
       (auto simp add: booking_tx_def split_beta Let_def split: if_splits)
  from ins have c: "map_of (users s) (u_id u) \<noteq> None"
      "map_of (users s) (ds_doctor_user_id ds) \<noteq> None"
      "(ds_doctor_user_id ds, via_date (slot_at ds)) \<notin> set (map appt_key (appointments s))"
    by (auto simp add: insert_appointment_def split: if_splits)
  from ins c have r: "r = (appt_auto_inc s,
      ?s1\<lparr>appointments := appointments s @
                   [\<lparr>a_id = appt_auto_inc s, a_patient_user_id = u_id u,
                     a_doctor_user_id = ds_doctor_user_id ds, a_scheduled_at = via_date (slot_at ds),
                     a_status = ''booked'', a_created_at = now\<rparr>],
           appt_auto_inc := Suc (appt_auto_inc s)\<rparr>)"
    by (auto simp add: insert_appointment_def split: if_splits)
  from False tx ins r have "snd (post_appointments via_date now u doctorSlotId s)
             = s\<lparr>doctor_slots := fst (mark_booked (ds_id ds) (doctor_slots s)),
                 appointments := appointments s @
                   [\<lparr>a_id = appt_auto_inc s, a_patient_user_id = u_id u,
                     a_doctor_user_id = ds_doctor_user_id ds, a_scheduled_at = via_date (slot_at ds),
                     a_status = ''booked'', a_created_at = now\<rparr>],
                 appt_auto_inc := Suc (appt_auto_inc s)\<rparr>"
    using id by (auto simp add: booking_tx_def split_beta Let_def split: if_splits)
  with mem free c show ?thesis by blast
qed

text \<open>The store a cancellation commits.\<close>

lemma cancel_commits:
  "snd (delete_appointment u apptId s) = s
   \<or> (\<exists>a. a \<in> set (appointments s) \<and> a_id a = apptId
         \<and> snd (delete_appointment u apptId s) = cancel_tx a s)"
proof (cases "select_appointment s apptId")
  case None
  then show ?thesis by (simp add: delete_appointment_def)
next
  case (Some a)
  then have "a \<in> set (appointments s)" and "a_id a = apptId"
    unfolding select_appointment_def by (auto dest: find_SomeD)
  moreover from Some have "snd (delete_appointment u apptId s) = s
      \<or> snd (delete_appointment u apptId s) = cancel_tx a s"
    by (simp add: delete_appointment_def Let_def)
  ultimately show ?thesis by blast
qed

lemma schema_ok_appt_ids:
  assumes "schema_ok s"
  shows "appt_auto_inc s \<notin> set (map a_id (appointments s))"
proof
  assume "appt_auto_inc s \<in> set (map a_id (appointments s))"
  then obtain a where "a \<in> set (appointments s)" "a_id a = appt_auto_inc s" by auto
  moreover from assms have "\<forall>a \<in> set (appointments s). a_id a < appt_auto_inc s"
    unfolding schema_ok_def by blast
  ultimately show False by auto
qed

lemma booked_store_schema_ok:
  assumes ok: "schema_ok s"
    and pu: "map_of (users s) pid \<noteq> None"
    and du: "map_of (users s) did \<noteq> None"
    and k: "(did, t) \<notin> set (map appt_key (appointments s))"
  shows "schema_ok (s\<lparr>doctor_slots := fst (mark_booked sid (doctor_slots s)),
                     appointments := appointments s @
                       [\<lparr>a_id = appt_auto_inc s, a_patient_user_id = pid,
                         a_doctor_user_id = did, a_scheduled_at = t,
                         a_status = st, a_created_at = now\<rparr>],
                     appt_auto_inc := Suc (appt_auto_inc s)\<rparr>)"
    (is "schema_ok ?s'")
proof -
  let ?a = "\<lparr>a_id = appt_auto_inc s, a_patient_user_id = pid,
             a_doctor_user_id = did, a_scheduled_at = t,
             a_status = st, a_created_at = now\<rparr>"
  from ok have u: "distinct (map fst (users ?s'))" by (simp add: schema_ok_def)
  from ok have i: "distinct (map ds_id (doctor_slots ?s'))"
    by (simp add: schema_ok_def mark_booked_ids)
  from ok have sk: "distinct (map slot_key (doctor_slots ?s'))"
    by (simp add: schema_ok_def mark_booked_keys)
  from ok schema_ok_appt_ids [OF ok] have ai: "distinct (map a_id (appointments ?s'))"
    by (simp add: schema_ok_def)
  from ok k have ak: "distinct (map appt_key (appointments ?s'))"
    by (simp add: schema_ok_def appt_key_def)
  from ok have old_slots: "\<forall>ds \<in> set (doctor_slots s).
            0 < ds_id ds \<and> ds_id ds < slot_auto_inc s
            \<and> map_of (users s) (ds_doctor_user_id ds) \<noteq> None"
    unfolding schema_ok_def by blast
  then have sl: "\<forall>ds \<in> set (doctor_slots ?s').
            0 < ds_id ds \<and> ds_id ds < slot_auto_inc ?s'
            \<and> map_of (users ?s') (ds_doctor_user_id ds) \<noteq> None"
    by (auto simp add: mark_booked_def)
  from ok have old_appts: "\<forall>a \<in> set (appointments s).
            0 < a_id a \<and> a_id a < appt_auto_inc s
            \<and> map_of (users s) (a_patient_user_id a) \<noteq> None
            \<and> map_of (users s) (a_doctor_user_id a) \<noteq> None"
    and c: "0 < slot_auto_inc s" "0 < appt_auto_inc s"
    unfolding schema_ok_def by blast+
  from old_appts c pu du have ap: "\<forall>a \<in> set (appointments ?s').
            0 < a_id a \<and> a_id a < appt_auto_inc ?s'
            \<and> map_of (users ?s') (a_patient_user_id a) \<noteq> None
            \<and> map_of (users ?s') (a_doctor_user_id a) \<noteq> None"
    by (auto simp add: less_Suc_eq)
  from c have c': "0 < slot_auto_inc ?s'" "0 < appt_auto_inc ?s'" by simp_all
  from u i sk ai ak sl ap c' show ?thesis unfolding schema_ok_def by blast
qed

lemma booked_store_invariant:
  assumes ok: "schema_ok s" and inv: "booking_invariant s"
    and mem: "ds \<in> set (doctor_slots s)" and free: "\<not> is_booked ds"
    and k: "slot_key ds \<notin> set (map appt_key (appointments s))"
  shows "booking_invariant (s\<lparr>doctor_slots := fst (mark_booked (ds_id ds) (doctor_slots s)),
                     appointments := appointments s @
                       [\<lparr>a_id = n, a_patient_user_id = pid,
                         a_doctor_user_id = ds_doctor_user_id ds, a_scheduled_at = slot_at ds,
                         a_status = st, a_created_at = now\<rparr>],
                     appt_auto_inc := m\<rparr>)"
    (is "booking_invariant ?s'")
proof -
  let ?a = "\<lparr>a_id = n, a_patient_user_id = pid,
             a_doctor_user_id = ds_doctor_user_id ds, a_scheduled_at = slot_at ds,
             a_status = st, a_created_at = now\<rparr>"
  from ok have di: "distinct (map ds_id (doctor_slots s))"
    and dk: "distinct (map slot_key (doctor_slots s))" by (simp_all add: schema_ok_def)
  have tbl: "doctor_slots ?s'
      = map (\<lambda>x. if x = ds then ds\<lparr>is_booked := True\<rparr> else x) (doctor_slots s)"
    using mark_booked_table [OF di mem free] by simp
  have ka: "appt_key ?a = slot_key ds" by (simp add: appt_key_def slot_key_def)
  have at: "appts_at ?s' key
      = appts_at s key @ (if slot_key ds = key then [?a] else [])" for key
    using ka by (simp add: appts_at_def)
  have none: "appts_at s (slot_key ds) = []"
    unfolding appts_at_def using k by (rule filter_absent)
  have "is_booked y \<longleftrightarrow> length (appts_at ?s' (slot_key y)) = 1"
    if y: "y \<in> set (doctor_slots ?s')" for y
  proof -
    from y tbl obtain x where x: "x \<in> set (doctor_slots s)"
      and yx: "y = (if x = ds then ds\<lparr>is_booked := True\<rparr> else x)" by auto
    show ?thesis
    proof (cases "x = ds")
      case True
      with yx have "is_booked y" and "slot_key y = slot_key ds" by (simp_all add: slot_key_def)
      with at [of "slot_key ds"] none show ?thesis by simp
    next
      case False
      with yx have yx': "y = x" by simp
      from False distinct_map_eq [OF dk x mem] have "slot_key x \<noteq> slot_key ds" by blast
      with at [of "slot_key x"] have "appts_at ?s' (slot_key x) = appts_at s (slot_key x)"
        by simp
      with inv x yx' show ?thesis by (simp add: booking_invariant_def)
    qed
  qed
  then show ?thesis unfolding booking_invariant_def by blast
qed

lemma claim_preserves_schema:
  assumes "schema_ok s"
  shows "schema_ok (snd (post_appointments via_date now u doctorSlotId s))"
proof -
  from claim_commits [of via_date now u doctorSlotId s]
  consider "snd (post_appointments via_date now u doctorSlotId s) = s"
    | ds where "ds \<in> set (doctor_slots s)" "\<not> is_booked ds"
        "map_of (users s) (u_id u) \<noteq> None"
        "map_of (users s) (ds_doctor_user_id ds) \<noteq> None"
        "(ds_doctor_user_id ds, via_date (slot_at ds)) \<notin> set (map appt_key (appointments s))"
        "snd (post_appointments via_date now u doctorSlotId s)
             = s\<lparr>doctor_slots := fst (mark_booked (ds_id ds) (doctor_slots s)),
                 appointments := appointments s @
                   [\<lparr>a_id = appt_auto_inc s, a_patient_user_id = u_id u,
                     a_doctor_user_id = ds_doctor_user_id ds,
                     a_scheduled_at = via_date (slot_at ds),
                     a_status = ''booked'', a_created_at = now\<rparr>],
                 appt_auto_inc := Suc (appt_auto_inc s)\<rparr>"
    by blast
  then show ?thesis
  proof cases
    case 1
    with assms show ?thesis by simp
  next
    case (2 ds)
    show ?thesis
      unfolding 2(6) by (rule booked_store_schema_ok [OF assms 2(3,4,5)])
  qed
qed

lemma claim_preserves:
  assumes "schema_ok s" and "booking_invariant s" and "times_survive via_date s"
  shows "schema_ok (snd (post_appointments via_date now u doctorSlotId s))
         \<and> booking_invariant (snd (post_appointments via_date now u doctorSlotId s))"
proof -
  from claim_commits [of via_date now u doctorSlotId s]
  consider "snd (post_appointments via_date now u doctorSlotId s) = s"
    | ds where "ds \<in> set (doctor_slots s)" "\<not> is_booked ds"
        "map_of (users s) (u_id u) \<noteq> None"
        "map_of (users s) (ds_doctor_user_id ds) \<noteq> None"
        "(ds_doctor_user_id ds, via_date (slot_at ds)) \<notin> set (map appt_key (appointments s))"
        "snd (post_appointments via_date now u doctorSlotId s)
             = s\<lparr>doctor_slots := fst (mark_booked (ds_id ds) (doctor_slots s)),
                 appointments := appointments s @
                   [\<lparr>a_id = appt_auto_inc s, a_patient_user_id = u_id u,
                     a_doctor_user_id = ds_doctor_user_id ds,
                     a_scheduled_at = via_date (slot_at ds),
                     a_status = ''booked'', a_created_at = now\<rparr>],
                 appt_auto_inc := Suc (appt_auto_inc s)\<rparr>"
    by blast
  then show ?thesis
  proof cases
    case 1
    with assms show ?thesis by simp
  next
    case (2 ds)
    from assms(3) 2(1) have tz: "via_date (slot_at ds) = slot_at ds"
      by (simp add: times_survive_def)
    from 2(5) tz have k: "slot_key ds \<notin> set (map appt_key (appointments s))"
      by (simp add: slot_key_def)
    from booked_store_invariant [OF assms(1,2) 2(1,2) k]
    have "booking_invariant (snd (post_appointments via_date now u doctorSlotId s))"
      unfolding 2(6) tz .
    with claim_preserves_schema [OF assms(1)] show ?thesis by simp
  qed
qed

lemma claim_keeps_times:
  assumes "times_survive via_date s"
  shows "times_survive via_date (snd (post_appointments via_date now u doctorSlotId s))"
proof -
  from claim_commits [of via_date now u doctorSlotId s]
  consider "snd (post_appointments via_date now u doctorSlotId s) = s"
    | ds where "ds \<in> set (doctor_slots s)" "\<not> is_booked ds"
        "map_of (users s) (u_id u) \<noteq> None"
        "map_of (users s) (ds_doctor_user_id ds) \<noteq> None"
        "(ds_doctor_user_id ds, via_date (slot_at ds)) \<notin> set (map appt_key (appointments s))"
        "snd (post_appointments via_date now u doctorSlotId s)
             = s\<lparr>doctor_slots := fst (mark_booked (ds_id ds) (doctor_slots s)),
                 appointments := appointments s @
                   [\<lparr>a_id = appt_auto_inc s, a_patient_user_id = u_id u,
                     a_doctor_user_id = ds_doctor_user_id ds,
                     a_scheduled_at = via_date (slot_at ds),
                     a_status = ''booked'', a_created_at = now\<rparr>],
                 appt_auto_inc := Suc (appt_auto_inc s)\<rparr>"
    by blast
  then show ?thesis
  proof cases
    case 1
    with assms show ?thesis by simp
  next
    case (2 ds)
    from assms show ?thesis
      unfolding 2(6) by (auto simp add: times_survive_def mark_booked_def)
  qed
qed


lemma cancel_tx_schema_ok:
  assumes ok: "schema_ok s"
  shows "schema_ok (cancel_tx a s)"
proof -
  let ?s' = "cancel_tx a s"
  have sl: "doctor_slots ?s' = free_slot (a_doctor_user_id a) (a_scheduled_at a) (doctor_slots s)"
    and ap: "appointments ?s' = filter (\<lambda>b. a_id b \<noteq> a_id a) (appointments s)"
    and rest: "users ?s' = users s" "slot_auto_inc ?s' = slot_auto_inc s"
      "appt_auto_inc ?s' = appt_auto_inc s"
    by (simp_all add: cancel_tx_def delete_appointment_row_def)
  from ok have u: "distinct (map fst (users ?s'))" by (simp add: schema_ok_def rest)
  from ok have i: "distinct (map ds_id (doctor_slots ?s'))"
    by (simp add: schema_ok_def sl free_slot_ids)
  from ok have sk: "distinct (map slot_key (doctor_slots ?s'))"
    by (simp add: schema_ok_def sl free_slot_keys)
  from ok have ai: "distinct (map a_id (appointments ?s'))"
    unfolding ap by (intro distinct_map_filter) (simp add: schema_ok_def)
  from ok have ak: "distinct (map appt_key (appointments ?s'))"
    unfolding ap by (intro distinct_map_filter) (simp add: schema_ok_def)
  from ok have old_slots: "\<forall>ds \<in> set (doctor_slots s).
            0 < ds_id ds \<and> ds_id ds < slot_auto_inc s
            \<and> map_of (users s) (ds_doctor_user_id ds) \<noteq> None"
    unfolding schema_ok_def by blast
  then have sl': "\<forall>ds \<in> set (doctor_slots ?s').
            0 < ds_id ds \<and> ds_id ds < slot_auto_inc ?s'
            \<and> map_of (users ?s') (ds_doctor_user_id ds) \<noteq> None"
    unfolding sl rest by (auto simp add: free_slot_def)
  from ok have old_appts: "\<forall>a \<in> set (appointments s).
            0 < a_id a \<and> a_id a < appt_auto_inc s
            \<and> map_of (users s) (a_patient_user_id a) \<noteq> None
            \<and> map_of (users s) (a_doctor_user_id a) \<noteq> None"
    and c: "0 < slot_auto_inc s" "0 < appt_auto_inc s"
    unfolding schema_ok_def by blast+
  from old_appts have ap': "\<forall>a \<in> set (appointments ?s').
            0 < a_id a \<and> a_id a < appt_auto_inc ?s'
            \<and> map_of (users ?s') (a_patient_user_id a) \<noteq> None
            \<and> map_of (users ?s') (a_doctor_user_id a) \<noteq> None"
    unfolding ap rest by simp
  from c have c': "0 < slot_auto_inc ?s'" "0 < appt_auto_inc ?s'" by (simp_all add: rest)
  from u i sk ai ak sl' ap' c' show ?thesis unfolding schema_ok_def by blast
qed

lemma cancel_tx_invariant:
  assumes ok: "schema_ok s" and inv: "booking_invariant s" and mem: "a \<in> set (appointments s)"
  shows "booking_invariant (cancel_tx a s)"
proof -
  let ?s' = "cancel_tx a s"
  from ok have di: "distinct (map a_id (appointments s))"
    and dk: "distinct (map appt_key (appointments s))" by (simp_all add: schema_ok_def)
  have sl: "doctor_slots ?s'
      = map (\<lambda>x. if slot_key x = appt_key a then x\<lparr>is_booked := False\<rparr> else x) (doctor_slots s)"
    by (simp add: cancel_tx_def free_slot_def slot_key_def appt_key_def)
  have at: "appts_at ?s' key
      = filter (\<lambda>b. appt_key b = key \<and> a_id b \<noteq> a_id a) (appointments s)" for key
    by (simp add: appts_at_def cancel_tx_def delete_appointment_row_def conj_commute)
  have gone: "appts_at ?s' (appt_key a) = []"
  proof -
    have "\<not> (appt_key b = appt_key a \<and> a_id b \<noteq> a_id a)" if "b \<in> set (appointments s)" for b
      using distinct_map_eq [OF dk that mem] by blast
    then show ?thesis unfolding at by (simp add: filter_empty_conv)
  qed
  have other: "appts_at ?s' key = appts_at s key" if "key \<noteq> appt_key a" for key
  proof -
    have "(appt_key b = key \<and> a_id b \<noteq> a_id a) = (appt_key b = key)"
      if "b \<in> set (appointments s)" for b
      using distinct_map_eq [OF di that mem] \<open>key \<noteq> appt_key a\<close> by blast
    then have "filter (\<lambda>b. appt_key b = key \<and> a_id b \<noteq> a_id a) (appointments s)
        = filter (\<lambda>b. appt_key b = key) (appointments s)"
      by (intro filter_cong) simp_all
    moreover have "appts_at s key = filter (\<lambda>b. appt_key b = key) (appointments s)"
      by (simp add: appts_at_def)
    ultimately show ?thesis using at [of key] by simp
  qed
  have "is_booked y \<longleftrightarrow> length (appts_at ?s' (slot_key y)) = 1"
    if y: "y \<in> set (doctor_slots ?s')" for y
  proof -
    from y sl obtain x where x: "x \<in> set (doctor_slots s)"
      and yx: "y = (if slot_key x = appt_key a then x\<lparr>is_booked := False\<rparr> else x)" by auto
    show ?thesis
    proof (cases "slot_key x = appt_key a")
      case True
      with yx have "\<not> is_booked y" and "slot_key y = appt_key a" by (simp_all add: slot_key_def)
      with gone show ?thesis by simp
    next
      case False
      with yx have "y = x" by simp
      with False other [of "slot_key x"] inv x show ?thesis
        by (simp add: booking_invariant_def)
    qed
  qed
  then show ?thesis unfolding booking_invariant_def by blast
qed

lemma cancel_preserves:
  assumes "schema_ok s" and "booking_invariant s"
  shows "schema_ok (snd (delete_appointment u apptId s))
         \<and> booking_invariant (snd (delete_appointment u apptId s))"
proof -
  from cancel_commits [of u apptId s]
  consider "snd (delete_appointment u apptId s) = s"
    | a where "a \<in> set (appointments s)" "snd (delete_appointment u apptId s) = cancel_tx a s"
    by blast
  then show ?thesis
  proof cases
    case 1
    with assms show ?thesis by simp
  next
    case (2 a)
    show ?thesis
      unfolding 2(2)
      using cancel_tx_schema_ok [OF assms(1)] cancel_tx_invariant [OF assms 2(1)] by blast
  qed
qed

lemma cancel_keeps_times:
  assumes "times_survive via_date s"
  shows "times_survive via_date (snd (delete_appointment u apptId s))"
proof -
  from cancel_commits [of u apptId s]
  consider "snd (delete_appointment u apptId s) = s"
    | a where "snd (delete_appointment u apptId s) = cancel_tx a s"
    by blast
  then show ?thesis
  proof cases
    case 1
    with assms show ?thesis by simp
  next
    case (2 a)
    from assms show ?thesis
      unfolding 2 by (auto simp add: times_survive_def cancel_tx_def free_slot_def)
  qed
qed

lemma exec_preserves:
  assumes "schema_ok s" and "booking_invariant s" and "times_survive via_date s"
  shows "schema_ok (exec via_date r s) \<and> booking_invariant (exec via_date r s)
         \<and> times_survive via_date (exec via_date r s)"
proof (cases r)
  case (Claim now u doctorSlotId)
  with claim_preserves [OF assms] claim_keeps_times [OF assms(3)] show ?thesis by simp
next
  case (Cancel u apptId)
  with cancel_preserves [OF assms(1,2)] cancel_keeps_times [OF assms(3)] show ?thesis by simp
qed

section \<open>The booking invariant at every commit\<close>

lemma gap_store_consistent:
  "schema_ok gap_store" "owners_are_doctors gap_store" "booking_invariant gap_store"
  by (simp_all add: gap_store_def schema_ok_def owners_are_doctors_def booking_invariant_def
        appts_at_def slot_key_def appt_key_def)

lemma gap_claim_violates_invariant:
  "\<not> booking_invariant
       (exec gap_zone (Claim 50 \<lparr>u_id = 2, u_role = Patient\<rparr> (Some 1)) gap_store)"
  by (simp add: gap_store_def gap_zone_def booking_invariant_def appts_at_def
        slot_key_def appt_key_def post_appointments_def authorizeRoles_def
        select_slot_def booking_tx_def mark_booked_def insert_appointment_def)

text \<open>
  C1. The code does not keep the invariant at every commit. In \<open>gap_store\<close>, which
  satisfies the schema and the invariant (\<open>gap_store_consistent\<close>), with the process in
  the zone \<open>gap_zone\<close>, one claim of the slot at 02:30 (9000) commits the slot flagged
  booked and an appointment at 03:30 (12600): the slot is booked and no appointment has
  its \<^verbatim>\<open>(doctor_id, scheduled_time)\<close>, so the committed store violates the invariant
  (\<open>gap_claim_violates_invariant\<close>).
\<close>

theorem claim_in_gap_breaks_invariant:
  "commits gap_zone [Claim 50 \<lparr>u_id = 2, u_role = Patient\<rparr> (Some 1)] gap_store
     = [gap_store,
        gap_store
          \<lparr>doctor_slots :=
             [\<lparr>ds_id = 1, ds_doctor_user_id = 1, slot_at = 9000, is_booked = True,
               ds_created_at = 10\<rparr>],
           appointments :=
             [\<lparr>a_id = 1, a_patient_user_id = 2, a_doctor_user_id = 1, a_scheduled_at = 12600,
               a_status = ''booked'', a_created_at = 50\<rparr>],
           appt_auto_inc := 2\<rparr>]
   \<and> appts_at
        (exec gap_zone (Claim 50 \<lparr>u_id = 2, u_role = Patient\<rparr> (Some 1)) gap_store)
        (1, 9000) = []"
  by (simp add: gap_store_def gap_zone_def appts_at_def appt_key_def
        post_appointments_def authorizeRoles_def
        select_slot_def booking_tx_def mark_booked_def insert_appointment_def)

text \<open>
  Where the time of every slot survives the round trip through a \<^verbatim>\<open>Date\<close>, the two
  protocols keep the invariant. Start from a store that satisfies the constraints of the
  schema and the booking invariant (a slot is flagged booked iff exactly one appointment
  has its \<^verbatim>\<open>(doctor_id, scheduled_time)\<close>). After every request of every sequence of
  claim and cancel requests, whatever their callers, arguments and outcomes, the
  committed store satisfies both again.
\<close>

lemma invariant_at_every_commit:
  "schema_ok s \<Longrightarrow> booking_invariant s \<Longrightarrow> times_survive via_date s \<Longrightarrow>
   \<forall>t \<in> set (commits via_date rs s). schema_ok t \<and> booking_invariant t"
proof (induction rs arbitrary: s)
  case Nil
  then show ?case by simp
next
  case (Cons r rs)
  from exec_preserves [OF Cons.prems] Cons.IH
  have "\<forall>t \<in> set (commits via_date rs (exec via_date r s)). schema_ok t \<and> booking_invariant t"
    by blast
  with Cons.prems show ?case by simp
qed

lemma invariant_at_every_commit_example:
  "schema_ok sample_store \<and> booking_invariant sample_store
   \<and> booking_invariant
       (exec gap_zone (Claim 53 \<lparr>u_id = 2, u_role = Patient\<rparr> (Some 1))
         (exec gap_zone (Cancel \<lparr>u_id = 3, u_role = Patient\<rparr> 2)
           (exec gap_zone (Claim 51 \<lparr>u_id = 2, u_role = Patient\<rparr> (Some 1))
             (exec gap_zone (Claim 50 \<lparr>u_id = 3, u_role = Patient\<rparr> (Some 1)) sample_store))))"
proof -
  let ?rs = "[Claim 50 \<lparr>u_id = 3, u_role = Patient\<rparr> (Some 1),
              Claim 51 \<lparr>u_id = 2, u_role = Patient\<rparr> (Some 1),
              Cancel \<lparr>u_id = 3, u_role = Patient\<rparr> 2,
              Claim 53 \<lparr>u_id = 2, u_role = Patient\<rparr> (Some 1)]"
  have ok: "schema_ok sample_store" and inv: "booking_invariant sample_store"
    by (rule sample_store_ok)+
  have tz: "times_survive gap_zone sample_store"
    by (simp add: times_survive_def sample_store_def gap_zone_def)
  have "exec gap_zone (Claim 53 \<lparr>u_id = 2, u_role = Patient\<rparr> (Some 1))
         (exec gap_zone (Cancel \<lparr>u_id = 3, u_role = Patient\<rparr> 2)
           (exec gap_zone (Claim 51 \<lparr>u_id = 2, u_role = Patient\<rparr> (Some 1))
             (exec gap_zone (Claim 50 \<lparr>u_id = 3, u_role = Patient\<rparr> (Some 1)) sample_store)))
         \<in> set (commits gap_zone ?rs sample_store)"
    by (simp del: exec.simps)
  with invariant_at_every_commit [OF ok inv tz, of ?rs] ok inv show ?thesis by blast
qed

section \<open>Claiming a slot whose time has passed\<close>

lemma future_slots_ids:
  "fst ` set (future_slots now d s)
     = ds_id ` {x \<in> set (doctor_slots s). ds_doctor_user_id x = d \<and> now \<le> slot_at x}"
  by (auto simp add: future_slots_def image_iff)

lemma collision_store_consistent:
  "schema_ok collision_store" "owners_are_doctors collision_store"
  "booking_invariant collision_store"
  by (simp_all add: collision_store_def schema_ok_def owners_are_doctors_def
        booking_invariant_def appts_at_def slot_key_def appt_key_def)

text \<open>
  C10. The handler never looks at the clock, but a claim of a free slot does not always
  succeed. In \<open>collision_store\<close>, which satisfies the schema and the invariant
  (\<open>collision_store_consistent\<close>), with the process in the zone \<open>gap_zone\<close>, the free slot
  at 02:30 (9000) lies in the past at the time 20000 and no listing of future slots shows
  it. A claim of it inserts the appointment at 03:30 (12600), where the doctor has an
  appointment already: the insert violates \<^verbatim>\<open>ux_appt_doctor_time\<close> and the handler
  answers 500.
\<close>

theorem claim_in_gap_collides:
  "select_slot collision_store 1
     = Some \<lparr>ds_id = 1, ds_doctor_user_id = 1, slot_at = 9000, is_booked = False,
             ds_created_at = 10\<rparr>
   \<and> future_slots 20000 1 collision_store = []
   \<and> post_appointments gap_zone 20000 \<lparr>u_id = 2, u_role = Patient\<rparr> (Some 1) collision_store
     = (Inl (Internal, ''Failed to book slot''), collision_store)"
  by (simp add: collision_store_def gap_zone_def appt_key_def future_slots_def
        post_appointments_def authorizeRoles_def select_slot_def booking_tx_def
        mark_booked_def insert_appointment_def)

text \<open>
  Where the time of the slot survives the round trip through a \<^verbatim>\<open>Date\<close>, the handler
  claims a slot whatever its time: at any time \<open>now\<close>, an authenticated patient who claims a free slot
  gets the appointment, created for the slot's own time. When that time lies before
  \<open>now\<close>, no listing of future slots shows the slot.
\<close>

lemma claim_ignores_slot_time:
  assumes "schema_ok s" and "owners_are_doctors s" and "booking_invariant s"
    and "authenticated s u" and "u_role u = Patient"
    and "ds \<in> set (doctor_slots s)" and "\<not> is_booked ds"
    and "via_date (slot_at ds) = slot_at ds"
  shows "(\<exists>s'. post_appointments via_date now u (Some (ds_id ds)) s
                = (Inr \<lparr>b_id = appt_auto_inc s, b_patient_user_id = u_id u,
                        b_doctor_user_id = ds_doctor_user_id ds,
                        b_scheduled_at = slot_at ds, b_slot_id = ds_id ds\<rparr>, s')
            \<and> appointments s' = appointments s @
                 [\<lparr>a_id = appt_auto_inc s, a_patient_user_id = u_id u,
                   a_doctor_user_id = ds_doctor_user_id ds, a_scheduled_at = slot_at ds,
                   a_status = ''booked'', a_created_at = now\<rparr>])
         \<and> (slot_at ds < now \<longrightarrow> (\<forall>d. ds_id ds \<notin> fst ` set (future_slots now d s)))"
proof (intro conjI impI allI)
  have k: "slot_key ds \<notin> set (map appt_key (appointments s))"
    by (rule free_slot_has_no_appointment [OF assms(1,3,6,7)])
  from claim_free_slot [where via_date = via_date, OF assms(1,2,4,5,6,7) k assms(8),
         where now = now]
  show "\<exists>s'. post_appointments via_date now u (Some (ds_id ds)) s
                = (Inr \<lparr>b_id = appt_auto_inc s, b_patient_user_id = u_id u,
                        b_doctor_user_id = ds_doctor_user_id ds,
                        b_scheduled_at = slot_at ds, b_slot_id = ds_id ds\<rparr>, s')
            \<and> appointments s' = appointments s @
                 [\<lparr>a_id = appt_auto_inc s, a_patient_user_id = u_id u,
                   a_doctor_user_id = ds_doctor_user_id ds, a_scheduled_at = slot_at ds,
                   a_status = ''booked'', a_created_at = now\<rparr>]"
    by simp
next
  fix d
  assume past: "slot_at ds < now"
  from assms(1) have di: "distinct (map ds_id (doctor_slots s))" by (simp add: schema_ok_def)
  show "ds_id ds \<notin> fst ` set (future_slots now d s)"
  proof
    assume "ds_id ds \<in> fst ` set (future_slots now d s)"
    then obtain x where x: "x \<in> set (doctor_slots s)" and "ds_id x = ds_id ds"
      and late: "now \<le> slot_at x"
      unfolding future_slots_ids by auto
    with distinct_map_eq [OF di x assms(6)] have "x = ds" by simp
    with late past show False by simp
  qed
qed

lemma claim_ignores_slot_time_example:
  "fst (post_appointments gap_zone 150 \<lparr>u_id = 3, u_role = Patient\<rparr> (Some 1) sample_store)
     = Inr \<lparr>b_id = 2, b_patient_user_id = 3, b_doctor_user_id = 1, b_scheduled_at = 100,
            b_slot_id = 1\<rparr>
   \<and> 1 \<notin> fst ` set (future_slots 150 1 sample_store)
   \<and> future_slots 150 1 sample_store = [(2, 200, True)]"
proof -
  let ?u = "\<lparr>u_id = 3, u_role = Patient\<rparr>"
  let ?ds = "\<lparr>ds_id = 1, ds_doctor_user_id = 1, slot_at = 100, is_booked = False,
              ds_created_at = 10\<rparr>"
  have auth: "authenticated sample_store ?u" by (simp add: authenticated_def sample_store_def)
  have role: "u_role ?u = Patient" by simp
  have mem: "?ds \<in> set (doctor_slots sample_store)" by (simp add: sample_store_def)
  have free: "\<not> is_booked ?ds" by simp
  have tz: "gap_zone (slot_at ?ds) = slot_at ?ds" by (simp add: gap_zone_def)
  note th = claim_ignores_slot_time [where via_date = gap_zone,
              OF sample_store_ok auth role mem free tz, where now = 150]
  have n: "appt_auto_inc sample_store = 2" by (simp add: sample_store_def)
  from th [THEN conjunct1] n
  have a: "fst (post_appointments gap_zone 150 ?u (Some 1) sample_store)
     = Inr \<lparr>b_id = 2, b_patient_user_id = 3, b_doctor_user_id = 1, b_scheduled_at = 100,
            b_slot_id = 1\<rparr>"
    by auto
  from th [THEN conjunct2] have b: "1 \<notin> fst ` set (future_slots 150 1 sample_store)"
    by simp
  have c: "future_slots 150 1 sample_store = [(2, 200, True)]"
    by (simp add: future_slots_def sample_store_def)
  from a b c show ?thesis by simp
qed

section \<open>Claim, cancel, claim again\<close>

lemma free_after_booking:
  assumes dk: "distinct (map slot_key tbl)" and mem: "ds \<in> set tbl" and free: "\<not> is_booked ds"
  shows "free_slot (ds_doctor_user_id ds) (slot_at ds)
           (map (\<lambda>x. if x = ds then ds\<lparr>is_booked := True\<rparr> else x) tbl) = tbl"
proof -
  have "(let y = (if x = ds then ds\<lparr>is_booked := True\<rparr> else x)
         in if ds_doctor_user_id y = ds_doctor_user_id ds \<and> slot_at y = slot_at ds
            then y\<lparr>is_booked := False\<rparr> else y) = x" if x: "x \<in> set tbl" for x
  proof (cases "x = ds")
    case True
    with free show ?thesis by simp
  next
    case False
    with distinct_map_eq [OF dk x mem] have "slot_key x \<noteq> slot_key ds" by blast
    with False show ?thesis by (auto simp add: slot_key_def)
  qed
  then have "map (\<lambda>x. let y = (if x = ds then ds\<lparr>is_booked := True\<rparr> else x)
         in if ds_doctor_user_id y = ds_doctor_user_id ds \<and> slot_at y = slot_at ds
            then y\<lparr>is_booked := False\<rparr> else y) tbl = tbl"
    by (intro map_idI)
  then show ?thesis by (simp add: free_slot_def Let_def comp_def)
qed

lemma delete_last_appointment:
  assumes "n \<notin> set (map a_id tbl)" and "a_id a = n"
  shows "delete_appointment_row n (tbl @ [a]) = tbl"
proof -
  from assms(1) have "filter (\<lambda>b. a_id b \<noteq> n) tbl = tbl" by (auto simp add: filter_id_conv)
  with assms(2) show ?thesis by (simp add: delete_appointment_row_def)
qed

text \<open>
  C5. Cancelling does not always release the slot. In \<open>gap_store\<close>, with the process in
  the zone \<open>gap_zone\<close>, patient 2 claims the slot at 02:30 (9000) and gets an appointment
  at 03:30 (12600). Patient 2 cancels it: the \<^verbatim>\<open>UPDATE\<close> of the cancellation looks for a
  slot of the doctor at 03:30, finds none, and the slot at 02:30 stays flagged booked. The
  claim of patient 3 is answered with 409.
\<close>

theorem cancel_after_gap_claim_keeps_slot_booked:
  "fst (post_appointments gap_zone 50 \<lparr>u_id = 2, u_role = Patient\<rparr> (Some 1) gap_store)
     = Inr \<lparr>b_id = 1, b_patient_user_id = 2, b_doctor_user_id = 1, b_scheduled_at = 12600,
            b_slot_id = 1\<rparr>
   \<and> delete_appointment \<lparr>u_id = 2, u_role = Patient\<rparr> 1
        (snd (post_appointments gap_zone 50 \<lparr>u_id = 2, u_role = Patient\<rparr> (Some 1) gap_store))
     = (Inr ''Appointment canceled'',
        gap_store
          \<lparr>doctor_slots :=
             [\<lparr>ds_id = 1, ds_doctor_user_id = 1, slot_at = 9000, is_booked = True,
               ds_created_at = 10\<rparr>],
           appt_auto_inc := 2\<rparr>)
   \<and> post_appointments gap_zone 60 \<lparr>u_id = 3, u_role = Patient\<rparr> (Some 1)
        (gap_store
          \<lparr>doctor_slots :=
             [\<lparr>ds_id = 1, ds_doctor_user_id = 1, slot_at = 9000, is_booked = True,
               ds_created_at = 10\<rparr>],
           appt_auto_inc := 2\<rparr>)
     = (Inl (Conflict, ''Slot already booked''),
        gap_store
          \<lparr>doctor_slots :=
             [\<lparr>ds_id = 1, ds_doctor_user_id = 1, slot_at = 9000, is_booked = True,
               ds_created_at = 10\<rparr>],
           appt_auto_inc := 2\<rparr>)"
  by (simp add: gap_store_def gap_zone_def post_appointments_def authorizeRoles_def
        select_slot_def booking_tx_def mark_booked_def insert_appointment_def appt_key_def
        delete_appointment_def select_appointment_def cancel_tx_def
        delete_appointment_row_def free_slot_def)

text \<open>
  Where the time of the slot survives the round trip through a \<^verbatim>\<open>Date\<close>, the handlers
  release the slot as the specification says. Let an authenticated patient \<open>p1\<close> claim a free slot, and let \<open>p1\<close> or
  the slot's doctor cancel the appointment this created. Then the slot table and the
  appointment table are again those before the claim (the slot is free), and a claim of
  the same slot by any authenticated patient \<open>p2\<close>, in particular one other than \<open>p1\<close>,
  succeeds: it creates an appointment with a new id and the same
  \<^verbatim>\<open>(doctor_id, scheduled_time)\<close>, and flags the slot booked.
\<close>

lemma cancel_makes_slot_claimable_again:
  assumes ok: "schema_ok s" and own: "owners_are_doctors s" and inv: "booking_invariant s"
    and a1: "authenticated s p1" and r1: "u_role p1 = Patient"
    and a2: "authenticated s p2" and r2: "u_role p2 = Patient"
    and mem: "ds \<in> set (doctor_slots s)" and free: "\<not> is_booked ds"
    and c: "c = p1 \<or> c = \<lparr>u_id = ds_doctor_user_id ds, u_role = Doctor\<rparr>"
    and tz: "via_date (slot_at ds) = slot_at ds"
  shows "\<exists>s1 s2 s3.
      post_appointments via_date t1 p1 (Some (ds_id ds)) s
        = (Inr \<lparr>b_id = appt_auto_inc s, b_patient_user_id = u_id p1,
                b_doctor_user_id = ds_doctor_user_id ds,
                b_scheduled_at = slot_at ds, b_slot_id = ds_id ds\<rparr>, s1)
      \<and> delete_appointment c (appt_auto_inc s) s1 = (Inr ''Appointment canceled'', s2)
      \<and> doctor_slots s2 = doctor_slots s \<and> appointments s2 = appointments s
      \<and> post_appointments via_date t2 p2 (Some (ds_id ds)) s2
        = (Inr \<lparr>b_id = Suc (appt_auto_inc s), b_patient_user_id = u_id p2,
                b_doctor_user_id = ds_doctor_user_id ds,
                b_scheduled_at = slot_at ds, b_slot_id = ds_id ds\<rparr>, s3)
      \<and> appointments s3 = appointments s @
           [\<lparr>a_id = Suc (appt_auto_inc s), a_patient_user_id = u_id p2,
             a_doctor_user_id = ds_doctor_user_id ds, a_scheduled_at = slot_at ds,
             a_status = ''booked'', a_created_at = t2\<rparr>]
      \<and> ds\<lparr>is_booked := True\<rparr> \<in> set (doctor_slots s3)"
proof -
  let ?n = "appt_auto_inc s"
  let ?book = "map (\<lambda>x. if x = ds then ds\<lparr>is_booked := True\<rparr> else x) (doctor_slots s)"
  let ?a1 = "\<lparr>a_id = ?n, a_patient_user_id = u_id p1,
              a_doctor_user_id = ds_doctor_user_id ds, a_scheduled_at = slot_at ds,
              a_status = ''booked'', a_created_at = t1\<rparr>"
  let ?s1 = "s\<lparr>doctor_slots := ?book, appointments := appointments s @ [?a1],
               appt_auto_inc := Suc ?n\<rparr>"
  let ?s2 = "s\<lparr>appt_auto_inc := Suc ?n\<rparr>"
  have k: "slot_key ds \<notin> set (map appt_key (appointments s))"
    by (rule free_slot_has_no_appointment [OF ok inv mem free])
  \<comment> \<open>the first claim\<close>
  have claim1: "post_appointments via_date t1 p1 (Some (ds_id ds)) s
        = (Inr \<lparr>b_id = ?n, b_patient_user_id = u_id p1,
                b_doctor_user_id = ds_doctor_user_id ds,
                b_scheduled_at = slot_at ds, b_slot_id = ds_id ds\<rparr>, ?s1)"
    by (rule claim_free_slot [where via_date = via_date, OF ok own a1 r1 mem free k tz])
  from claim_preserves_schema [OF ok, of via_date t1 p1 "Some (ds_id ds)"] claim1
  have ok1: "schema_ok ?s1" by simp
  \<comment> \<open>the cancellation\<close>
  have "?a1 \<in> set (appointments ?s1)" by simp
  from select_appointment_unique [OF ok1 this]
  have sel: "select_appointment ?s1 ?n = Some ?a1" by simp
  from ok have dk: "distinct (map slot_key (doctor_slots s))" by (simp add: schema_ok_def)
  have slots2: "free_slot (ds_doctor_user_id ds) (slot_at ds) ?book = doctor_slots s"
    by (rule free_after_booking [OF dk mem free])
  have appts2: "delete_appointment_row ?n (appointments s @ [?a1]) = appointments s"
    by (rule delete_last_appointment [OF schema_ok_appt_ids [OF ok]]) simp
  from slots2 appts2 have tx: "cancel_tx ?a1 ?s1 = ?s2" by (simp add: cancel_tx_def)
  from c r1 have "(a_patient_user_id ?a1 = u_id c \<and> u_role c = Patient)
      \<or> (a_doctor_user_id ?a1 = u_id c \<and> u_role c = Doctor)" by auto
  with sel tx have cancel: "delete_appointment c ?n ?s1 = (Inr ''Appointment canceled'', ?s2)"
    by (auto simp add: delete_appointment_def Let_def)
  \<comment> \<open>the store after the cancellation satisfies what the first claim needed\<close>
  from cancel_tx_schema_ok [OF ok1, of ?a1] tx
  have ok2: "schema_ok ?s2" by simp
  from own have own2: "owners_are_doctors ?s2" by (simp add: owners_are_doctors_def)
  from a2 have a2': "authenticated ?s2 p2" by (simp add: authenticated_def)
  from mem have mem2: "ds \<in> set (doctor_slots ?s2)" by simp
  from k have k2: "slot_key ds \<notin> set (map appt_key (appointments ?s2))" by simp
  \<comment> \<open>the second claim\<close>
  let ?a2 = "\<lparr>a_id = Suc ?n, a_patient_user_id = u_id p2,
              a_doctor_user_id = ds_doctor_user_id ds, a_scheduled_at = slot_at ds,
              a_status = ''booked'', a_created_at = t2\<rparr>"
  let ?s3 = "?s2\<lparr>doctor_slots := ?book, appointments := appointments s @ [?a2],
                appt_auto_inc := Suc (Suc ?n)\<rparr>"
  from claim_free_slot [where via_date = via_date, OF ok2 own2 a2' r2 mem2 free k2 tz,
         where now = t2]
  have claim2: "post_appointments via_date t2 p2 (Some (ds_id ds)) ?s2
        = (Inr \<lparr>b_id = Suc ?n, b_patient_user_id = u_id p2,
                b_doctor_user_id = ds_doctor_user_id ds,
                b_scheduled_at = slot_at ds, b_slot_id = ds_id ds\<rparr>, ?s3)"
    by simp
  from mem have "ds\<lparr>is_booked := True\<rparr> \<in> set ?book" by force
  then have booked3: "ds\<lparr>is_booked := True\<rparr> \<in> set (doctor_slots ?s3)" by simp
  have tables2: "doctor_slots ?s2 = doctor_slots s" "appointments ?s2 = appointments s"
    by simp_all
  have appts3: "appointments ?s3 = appointments s @ [?a2]" by simp
  from claim1 cancel tables2 claim2 appts3 booked3 show ?thesis by blast
qed

lemma cancel_makes_slot_claimable_again_example:
  "fst (post_appointments gap_zone 50 \<lparr>u_id = 3, u_role = Patient\<rparr> (Some 1) sample_store)
     = Inr \<lparr>b_id = 2, b_patient_user_id = 3, b_doctor_user_id = 1, b_scheduled_at = 100,
            b_slot_id = 1\<rparr>
   \<and> fst (delete_appointment \<lparr>u_id = 1, u_role = Doctor\<rparr> 2
        (snd (post_appointments gap_zone 50 \<lparr>u_id = 3, u_role = Patient\<rparr> (Some 1) sample_store)))
     = Inr ''Appointment canceled''
   \<and> fst (post_appointments gap_zone 60 \<lparr>u_id = 2, u_role = Patient\<rparr> (Some 1)
        (snd (delete_appointment \<lparr>u_id = 1, u_role = Doctor\<rparr> 2
          (snd (post_appointments gap_zone 50 \<lparr>u_id = 3, u_role = Patient\<rparr> (Some 1) sample_store)))))
     = Inr \<lparr>b_id = 3, b_patient_user_id = 2, b_doctor_user_id = 1, b_scheduled_at = 100,
            b_slot_id = 1\<rparr>"
proof -
  let ?p1 = "\<lparr>u_id = 3, u_role = Patient\<rparr>"
  let ?p2 = "\<lparr>u_id = 2, u_role = Patient\<rparr>"
  let ?c = "\<lparr>u_id = 1, u_role = Doctor\<rparr>"
  let ?ds = "\<lparr>ds_id = 1, ds_doctor_user_id = 1, slot_at = 100, is_booked = False,
              ds_created_at = 10\<rparr>"
  have a1: "authenticated sample_store ?p1" and a2: "authenticated sample_store ?p2"
    by (simp_all add: authenticated_def sample_store_def)
  have r1: "u_role ?p1 = Patient" and r2: "u_role ?p2 = Patient" by simp_all
  have mem: "?ds \<in> set (doctor_slots sample_store)" by (simp add: sample_store_def)
  have free: "\<not> is_booked ?ds" by simp
  have c: "?c = ?p1 \<or> ?c = \<lparr>u_id = ds_doctor_user_id ?ds, u_role = Doctor\<rparr>" by simp
  have n: "appt_auto_inc sample_store = 2" by (simp add: sample_store_def)
  have tz: "gap_zone (slot_at ?ds) = slot_at ?ds" by (simp add: gap_zone_def)
  from cancel_makes_slot_claimable_again
         [where via_date = gap_zone, OF sample_store_ok a1 r1 a2 r2 mem free c tz,
          where ?t1.0 = 50 and ?t2.0 = 60]
  obtain s1 s2 s3 where
    "post_appointments gap_zone 50 ?p1 (Some 1) sample_store
        = (Inr \<lparr>b_id = 2, b_patient_user_id = 3, b_doctor_user_id = 1, b_scheduled_at = 100,
                b_slot_id = 1\<rparr>, s1)"
    "delete_appointment ?c 2 s1 = (Inr ''Appointment canceled'', s2)"
    "post_appointments gap_zone 60 ?p2 (Some 1) s2
        = (Inr \<lparr>b_id = 3, b_patient_user_id = 2, b_doctor_user_id = 1, b_scheduled_at = 100,
                b_slot_id = 1\<rparr>, s3)"
    unfolding n by auto
  then show ?thesis by simp
qed

section \<open>Publishing slots\<close>

lemma insert_ignore_Cons:
  "insert_ignore_slots now ((d, t) # vs) s =
     (if map_of (users s) d = None \<or> (d, t) \<in> set (map slot_key (doctor_slots s))
      then insert_ignore_slots now vs s
      else (Suc (fst (insert_ignore_slots now vs
                   (s\<lparr>doctor_slots := doctor_slots s @
                        [\<lparr>ds_id = slot_auto_inc s, ds_doctor_user_id = d, slot_at = t,
                          is_booked = False, ds_created_at = now\<rparr>],
                      slot_auto_inc := Suc (slot_auto_inc s)\<rparr>))),
            snd (insert_ignore_slots now vs
                   (s\<lparr>doctor_slots := doctor_slots s @
                        [\<lparr>ds_id = slot_auto_inc s, ds_doctor_user_id = d, slot_at = t,
                          is_booked = False, ds_created_at = now\<rparr>],
                      slot_auto_inc := Suc (slot_auto_inc s)\<rparr>))))"
  by (simp add: split_beta)

lemma insert_ignore_other_tables:
  "users (snd (insert_ignore_slots now vs s)) = users s
   \<and> appointments (snd (insert_ignore_slots now vs s)) = appointments s
   \<and> appt_auto_inc (snd (insert_ignore_slots now vs s)) = appt_auto_inc s"
proof (induction vs arbitrary: s)
  case Nil
  then show ?case by simp
next
  case (Cons v vs)
  obtain d t where v: "v = (d, t)" by (cases v)
  show ?case unfolding v insert_ignore_Cons using Cons.IH by simp
qed

text \<open>
  What the statement appends: one free row for each key of the list that has a doctor in
  \<^verbatim>\<open>users\<close> and is not yet in the table, once.
\<close>

lemma insert_ignore_appends:
  "\<exists>new. doctor_slots (snd (insert_ignore_slots now vs s)) = doctor_slots s @ new
       \<and> length new = fst (insert_ignore_slots now vs s)
       \<and> (\<forall>x \<in> set new. \<not> is_booked x)
       \<and> distinct (map slot_key new)
       \<and> set (map slot_key new)
            = {k \<in> set vs. map_of (users s) (fst k) \<noteq> None} - set (map slot_key (doctor_slots s))"
proof (induction vs arbitrary: s)
  case Nil
  then show ?case by simp
next
  case (Cons v vs)
  obtain d t where v: "v = (d, t)" by (cases v)
  show ?case
  proof (cases "map_of (users s) d = None \<or> (d, t) \<in> set (map slot_key (doctor_slots s))")
    case True
    from Cons.IH [of s] obtain new where
      n: "doctor_slots (snd (insert_ignore_slots now vs s)) = doctor_slots s @ new"
        "length new = fst (insert_ignore_slots now vs s)"
        "\<forall>x \<in> set new. \<not> is_booked x" "distinct (map slot_key new)"
      and keys: "set (map slot_key new)
            = {k \<in> set vs. map_of (users s) (fst k) \<noteq> None} - set (map slot_key (doctor_slots s))"
      by blast
    from True have "{k \<in> set (v # vs). map_of (users s) (fst k) \<noteq> None}
          - set (map slot_key (doctor_slots s))
        = {k \<in> set vs. map_of (users s) (fst k) \<noteq> None} - set (map slot_key (doctor_slots s))"
      unfolding v by auto
    with keys have "set (map slot_key new)
            = {k \<in> set (v # vs). map_of (users s) (fst k) \<noteq> None}
                - set (map slot_key (doctor_slots s))" by simp
    moreover from True have "insert_ignore_slots now (v # vs) s = insert_ignore_slots now vs s"
      unfolding v insert_ignore_Cons by (rule if_P)
    ultimately show ?thesis using n by auto
  next
    case False
    let ?row = "\<lparr>ds_id = slot_auto_inc s, ds_doctor_user_id = d, slot_at = t,
                 is_booked = False, ds_created_at = now\<rparr>"
    let ?s1 = "s\<lparr>doctor_slots := doctor_slots s @ [?row],
                 slot_auto_inc := Suc (slot_auto_inc s)\<rparr>"
    from Cons.IH [of ?s1] obtain new where
      n: "doctor_slots (snd (insert_ignore_slots now vs ?s1)) = doctor_slots ?s1 @ new"
        "length new = fst (insert_ignore_slots now vs ?s1)"
        "\<forall>x \<in> set new. \<not> is_booked x" "distinct (map slot_key new)"
      and keys: "set (map slot_key new)
            = {k \<in> set vs. map_of (users ?s1) (fst k) \<noteq> None}
                - set (map slot_key (doctor_slots ?s1))"
      by blast
    have kr: "slot_key ?row = (d, t)" by (simp add: slot_key_def)
    from keys kr have keys': "set (map slot_key new)
            = {k \<in> set vs. map_of (users s) (fst k) \<noteq> None}
                - (set (map slot_key (doctor_slots s)) \<union> {(d, t)})" by simp
    from False have step: "insert_ignore_slots now (v # vs) s
        = (Suc (fst (insert_ignore_slots now vs ?s1)), snd (insert_ignore_slots now vs ?s1))"
      unfolding v insert_ignore_Cons by (rule if_not_P)
    have a: "doctor_slots (snd (insert_ignore_slots now (v # vs) s)) = doctor_slots s @ (?row # new)"
      unfolding step using n(1) by simp
    have b: "length (?row # new) = fst (insert_ignore_slots now (v # vs) s)"
      unfolding step using n(2) by simp
    have c: "\<forall>x \<in> set (?row # new). \<not> is_booked x" using n(3) by simp
    from keys' have "(d, t) \<notin> set (map slot_key new)" by blast
    with n(4) kr have e: "distinct (map slot_key (?row # new))" by simp
    from False keys' kr have f: "set (map slot_key (?row # new))
            = {k \<in> set (v # vs). map_of (users s) (fst k) \<noteq> None}
                - set (map slot_key (doctor_slots s))"
      unfolding v by auto
    from a b c e f show ?thesis by blast
  qed
qed

text \<open>A statement all of whose rows are skipped inserts nothing.\<close>

lemma insert_ignore_nothing:
  "(\<forall>k \<in> set vs. map_of (users s) (fst k) = None \<or> k \<in> set (map slot_key (doctor_slots s)))
   \<Longrightarrow> insert_ignore_slots now vs s = (0, s)"
proof (induction vs)
  case Nil
  then show ?case by simp
next
  case (Cons v vs)
  obtain d t where v: "v = (d, t)" by (cases v)
  from Cons.prems have "map_of (users s) d = None \<or> (d, t) \<in> set (map slot_key (doctor_slots s))"
    unfolding v by simp
  moreover from Cons have "insert_ignore_slots now vs s = (0, s)" by simp
  ultimately show ?case unfolding v insert_ignore_Cons by (simp only: if_P)
qed

lemma insert_ignore_twice:
  "insert_ignore_slots now' vs (snd (insert_ignore_slots now vs s))
     = (0, snd (insert_ignore_slots now vs s))"
proof (rule insert_ignore_nothing, rule ballI)
  let ?s' = "snd (insert_ignore_slots now vs s)"
  fix k
  assume k: "k \<in> set vs"
  from insert_ignore_appends [of now vs s] obtain new where
    n: "doctor_slots ?s' = doctor_slots s @ new"
    and keys: "set (map slot_key new)
            = {k \<in> set vs. map_of (users s) (fst k) \<noteq> None} - set (map slot_key (doctor_slots s))"
    by blast
  have u: "users ?s' = users s" by (simp add: insert_ignore_other_tables)
  show "map_of (users ?s') (fst k) = None \<or> k \<in> set (map slot_key (doctor_slots ?s'))"
  proof (cases "map_of (users s) (fst k) = None")
    case True
    with u show ?thesis by simp
  next
    case False
    with k keys have "k \<in> set (map slot_key (doctor_slots s)) \<or> k \<in> set (map slot_key new)"
      by blast
    with n show ?thesis by auto
  qed
qed

lemma publish_valid_request:
  assumes "u_role u = Doctor" and "xs \<noteq> []" and "list_all slot_format_ok xs"
  shows "post_doctor_slots to_datetime now u (Some xs) s
     = (Inr (fst (insert_ignore_slots now (map (\<lambda>x. (u_id u, to_datetime (the_str x))) xs) s)),
        snd (insert_ignore_slots now (map (\<lambda>x. (u_id u, to_datetime (the_str x))) xs) s))"
  using assms by (simp add: post_doctor_slots_def authorizeRoles_def split_beta Let_def)

text \<open>
  C7. A doctor's request with a non-empty list of well-formed timestamps never fails on a
  duplicate: it answers with a count \<open>n\<close> and commits a slot table that is the old one
  followed by \<open>n\<close> new free rows, whose keys are pairwise different, were not in the table,
  and come from the request. So \<open>n\<close> is the number of different \<^verbatim>\<open>(doctorId, time)\<close>
  pairs of the request that were not in the table (of a doctor with a \<^verbatim>\<open>users\<close> row).
  The same request again, at any later time, answers 0 and commits the same store.
\<close>

theorem publish_is_idempotent:
  assumes "u_role u = Doctor" and "xs \<noteq> []" and "list_all slot_format_ok xs"
  shows "\<exists>n s'. post_doctor_slots to_datetime now u (Some xs) s = (Inr n, s')
      \<and> (\<exists>new. doctor_slots s' = doctor_slots s @ new \<and> length new = n
            \<and> distinct (map slot_key new)
            \<and> (\<forall>x \<in> set new. \<not> is_booked x
                  \<and> slot_key x \<notin> set (map slot_key (doctor_slots s))
                  \<and> slot_key x \<in> (\<lambda>x. (u_id u, to_datetime (the_str x))) ` set xs))
      \<and> n = card ({k \<in> (\<lambda>x. (u_id u, to_datetime (the_str x))) ` set xs.
                       map_of (users s) (fst k) \<noteq> None}
                   - set (map slot_key (doctor_slots s)))
      \<and> appointments s' = appointments s
      \<and> post_doctor_slots to_datetime now' u (Some xs) s' = (Inr 0, s')"
proof -
  let ?vs = "map (\<lambda>x. (u_id u, to_datetime (the_str x))) xs"
  let ?n = "fst (insert_ignore_slots now ?vs s)"
  let ?s' = "snd (insert_ignore_slots now ?vs s)"
  have first: "post_doctor_slots to_datetime now u (Some xs) s = (Inr ?n, ?s')"
    by (rule publish_valid_request [OF assms])
  from insert_ignore_appends [of now ?vs s] obtain new where
    n: "doctor_slots ?s' = doctor_slots s @ new" "length new = ?n"
      "\<forall>x \<in> set new. \<not> is_booked x" "distinct (map slot_key new)"
    and keys: "set (map slot_key new)
        = {k \<in> set ?vs. map_of (users s) (fst k) \<noteq> None} - set (map slot_key (doctor_slots s))"
    by blast
  have vs: "set ?vs = (\<lambda>x. (u_id u, to_datetime (the_str x))) ` set xs" by simp
  have rows: "\<forall>x \<in> set new. \<not> is_booked x
                  \<and> slot_key x \<notin> set (map slot_key (doctor_slots s))
                  \<and> slot_key x \<in> (\<lambda>x. (u_id u, to_datetime (the_str x))) ` set xs"
  proof
    fix x
    assume x: "x \<in> set new"
    then have "slot_key x \<in> set (map slot_key new)" by simp
    with keys vs have "slot_key x \<notin> set (map slot_key (doctor_slots s))"
      and "slot_key x \<in> (\<lambda>x. (u_id u, to_datetime (the_str x))) ` set xs" by auto
    with n(3) x show "\<not> is_booked x
                  \<and> slot_key x \<notin> set (map slot_key (doctor_slots s))
                  \<and> slot_key x \<in> (\<lambda>x. (u_id u, to_datetime (the_str x))) ` set xs" by simp
  qed
  from n(4) have "card (set (map slot_key new)) = length (map slot_key new)"
    by (rule distinct_card)
  with n(2) keys vs have count: "?n = card ({k \<in> (\<lambda>x. (u_id u, to_datetime (the_str x))) ` set xs.
                       map_of (users s) (fst k) \<noteq> None}
                   - set (map slot_key (doctor_slots s)))" by simp
  have appts: "appointments ?s' = appointments s" by (simp add: insert_ignore_other_tables)
  have again: "post_doctor_slots to_datetime now' u (Some xs) ?s' = (Inr 0, ?s')"
    unfolding publish_valid_request [OF assms] insert_ignore_twice by simp
  from first n(1,2,4) rows count appts again show ?thesis by blast
qed

theorem publish_is_idempotent_witness:
  "fst (post_doctor_slots (\<lambda>x. if x = ''2025-03-01 10:00:00'' then 100 else 400) 70
          \<lparr>u_id = 1, u_role = Doctor\<rparr>
          (Some [JStr ''2025-03-01 10:00:00'', JStr ''2025-03-01 11:00:00'',
                 JStr ''2025-03-01 11:00:00''])
          sample_store) = Inr 1
   \<and> fst (post_doctor_slots (\<lambda>x. if x = ''2025-03-01 10:00:00'' then 100 else 400) 80
          \<lparr>u_id = 1, u_role = Doctor\<rparr>
          (Some [JStr ''2025-03-01 10:00:00'', JStr ''2025-03-01 11:00:00'',
                 JStr ''2025-03-01 11:00:00''])
          (snd (post_doctor_slots (\<lambda>x. if x = ''2025-03-01 10:00:00'' then 100 else 400) 70
                  \<lparr>u_id = 1, u_role = Doctor\<rparr>
                  (Some [JStr ''2025-03-01 10:00:00'', JStr ''2025-03-01 11:00:00'',
                         JStr ''2025-03-01 11:00:00''])
                  sample_store))) = Inr 0"
proof -
  let ?f = "\<lambda>x. if x = ''2025-03-01 10:00:00'' then 100 else (400::nat)"
  let ?u = "\<lparr>u_id = 1, u_role = Doctor\<rparr>"
  let ?xs = "[JStr ''2025-03-01 10:00:00'', JStr ''2025-03-01 11:00:00'',
              JStr ''2025-03-01 11:00:00'']"
  have role: "u_role ?u = Doctor" by simp
  have ne: "?xs \<noteq> []" by simp
  have fmt: "list_all slot_format_ok ?xs" by (simp add: validateDateTimeSQL_def is_digit_def)
  have one: "card ({k \<in> (\<lambda>x. (u_id ?u, ?f (the_str x))) ` set ?xs.
                       map_of (users sample_store) (fst k) \<noteq> None}
                   - set (map slot_key (doctor_slots sample_store))) = 1"
  proof -
    have "{k \<in> (\<lambda>x. (u_id ?u, ?f (the_str x))) ` set ?xs.
                       map_of (users sample_store) (fst k) \<noteq> None}
                   - set (map slot_key (doctor_slots sample_store)) = {(1, 400)}"
      by (auto simp add: sample_store_def slot_key_def)
    then show ?thesis by simp
  qed
  from publish_is_idempotent [OF role ne fmt, of ?f 70 sample_store 80]
  obtain n s' where "post_doctor_slots ?f 70 ?u (Some ?xs) sample_store = (Inr n, s')"
    and "n = card ({k \<in> (\<lambda>x. (u_id ?u, ?f (the_str x))) ` set ?xs.
                       map_of (users sample_store) (fst k) \<noteq> None}
                   - set (map slot_key (doctor_slots sample_store)))"
    and "post_doctor_slots ?f 80 ?u (Some ?xs) s' = (Inr 0, s')"
    by blast
  with one show ?thesis by simp
qed

section \<open>The race for one slot\<close>

lemma contest_select:
  assumes "contest via_date s ds init"
  shows "select_slot s (ds_id ds) = Some ds"
  using assms select_slot_unique [of s ds] by (simp add: contest_def)

lemma contest_update:
  assumes "contest via_date s ds init"
  shows "fst (mark_booked (ds_id ds) (doctor_slots s)) = doctor_slots (updated_view s ds)"
    and "snd (mark_booked (ds_id ds) (doctor_slots s)) \<noteq> 0"
proof -
  from assms have d: "distinct (map ds_id (doctor_slots s))"
    and mem: "ds \<in> set (doctor_slots s)" and free: "\<not> is_booked ds"
    by (simp_all add: contest_def schema_ok_def)
  from mark_booked_table [OF d mem free]
  show "fst (mark_booked (ds_id ds) (doctor_slots s)) = doctor_slots (updated_view s ds)"
    by (simp add: updated_view_def)
  show "snd (mark_booked (ds_id ds) (doctor_slots s)) \<noteq> 0"
    by (rule mark_booked_affected [OF mem free])
qed

lemma contest_insert:
  assumes c: "contest via_date s ds init" and a: "a \<in> set init"
  shows "insert_appointment (clock a) (u_id (who a)) (ds_doctor_user_id ds) (slot_at ds)
           ''booked'' (updated_view s ds)
         = Some (appt_auto_inc s, inserted_view s ds a)"
proof -
  from c have ok: "schema_ok s" and inv: "booking_invariant s"
    and mem: "ds \<in> set (doctor_slots s)" and free: "\<not> is_booked ds"
    by (simp_all add: contest_def)
  from c a have "authenticated s (who a)" by (simp add: contest_def)
  then have pu: "map_of (users s) (u_id (who a)) \<noteq> None" by (simp add: authenticated_def)
  from ok mem have du: "map_of (users s) (ds_doctor_user_id ds) \<noteq> None"
    unfolding schema_ok_def by blast
  from free_slot_has_no_appointment [OF ok inv mem free]
  have k: "(ds_doctor_user_id ds, slot_at ds) \<notin> set (map appt_key (appointments s))"
    by (simp add: slot_key_def)
  from pu du k show ?thesis
    by (simp add: insert_appointment_def inserted_view_def updated_view_def)
qed

lemma inserted_view_ok:
  assumes c: "contest via_date s ds init" and a: "a \<in> set init"
  shows "schema_ok (inserted_view s ds a)" and "owners_are_doctors (inserted_view s ds a)"
    and "ds\<lparr>is_booked := True\<rparr> \<in> set (doctor_slots (inserted_view s ds a))"
proof -
  from c have ok: "schema_ok s" and inv: "booking_invariant s" and own: "owners_are_doctors s"
    and mem: "ds \<in> set (doctor_slots s)" and free: "\<not> is_booked ds"
    by (simp_all add: contest_def)
  from ok have d: "distinct (map ds_id (doctor_slots s))" by (simp add: schema_ok_def)
  from c a have "authenticated s (who a)" by (simp add: contest_def)
  then have pu: "map_of (users s) (u_id (who a)) \<noteq> None" by (simp add: authenticated_def)
  from ok mem have du: "map_of (users s) (ds_doctor_user_id ds) \<noteq> None"
    unfolding schema_ok_def by blast
  from free_slot_has_no_appointment [OF ok inv mem free]
  have k: "(ds_doctor_user_id ds, slot_at ds) \<notin> set (map appt_key (appointments s))"
    by (simp add: slot_key_def)
  from booked_store_schema_ok [OF ok pu du k, where sid = "ds_id ds" and st = "''booked''"
         and now = "clock a"]
    mark_booked_table [OF d mem free]
  show "schema_ok (inserted_view s ds a)"
    by (simp add: inserted_view_def updated_view_def)
  from own show "owners_are_doctors (inserted_view s ds a)"
    by (auto simp add: owners_are_doctors_def inserted_view_def updated_view_def)
  from mem show "ds\<lparr>is_booked := True\<rparr> \<in> set (doctor_slots (inserted_view s ds a))"
    by (force simp add: inserted_view_def updated_view_def)
qed

lemma winner_select:
  assumes c: "contest via_date s ds init" and a: "a \<in> set init"
  shows "select_slot (inserted_view s ds a) (ds_id ds) = Some (ds\<lparr>is_booked := True\<rparr>)"
  using select_slot_unique [OF inserted_view_ok [OF c a]] by simp

lemma winner_update:
  assumes c: "contest via_date s ds init" and a: "a \<in> set init"
  shows "snd (mark_booked (ds_id ds) (doctor_slots (inserted_view s ds a))) = 0"
proof -
  let ?tbl = "doctor_slots (inserted_view s ds a)"
  from inserted_view_ok(1) [OF c a] have d: "distinct (map ds_id ?tbl)"
    by (simp add: schema_ok_def)
  have "\<not> (ds_id x = ds_id ds \<and> \<not> is_booked x)" if x: "x \<in> set ?tbl" for x
  proof
    assume h: "ds_id x = ds_id ds \<and> \<not> is_booked x"
    with distinct_map_eq [OF d x inserted_view_ok(3) [OF c a]]
    have "x = ds\<lparr>is_booked := True\<rparr>" by simp
    with h show False by simp
  qed
  then have "filter (\<lambda>x. ds_id x = ds_id ds \<and> \<not> is_booked x) ?tbl = []"
    by (simp add: filter_empty_conv)
  then show ?thesis by (simp add: mark_booked_def)
qed

text \<open>What each statement does in each situation of the race.\<close>

lemma advance_precheck_free:
  assumes "contest via_date s ds init"
  shows "advance via_date (ds_id ds) lf s u now Start = (s, Checked ds)"
  using assms contest_select [OF assms] by (simp add: contest_def)

lemma advance_precheck_booked:
  assumes "contest via_date s ds init" and "a \<in> set init"
  shows "advance via_date (ds_id ds) lf (inserted_view s ds a) u now Start
           = (inserted_view s ds a, Done (Inl (Conflict, ''Slot already booked'')))"
  using winner_select [OF assms] by simp

lemma advance_update_free:
  assumes "contest via_date s ds init"
  shows "advance via_date (ds_id ds) True s u now (Checked ds) = (s, Updated ds (updated_view s ds))"
proof -
  have "s\<lparr>doctor_slots := doctor_slots (updated_view s ds)\<rparr> = updated_view s ds"
    by (simp add: updated_view_def)
  with contest_update [OF assms] show ?thesis by (simp add: split_beta)
qed

lemma advance_update_booked:
  assumes "contest via_date s ds init" and "a \<in> set init"
  shows "advance via_date (ds_id ds) True (inserted_view s ds a) u now (Checked ds)
           = (inserted_view s ds a, Done (Inl (Conflict, ''Slot already booked (race)'')))"
  using winner_update [OF assms] by (simp add: split_beta)

lemma advance_insert:
  assumes "contest via_date s ds init" and "a \<in> set init"
  shows "advance via_date (ds_id ds) lf s (who a) (clock a) (Updated ds (updated_view s ds))
           = (s, Inserted ds (appt_auto_inc s) (inserted_view s ds a))"
proof -
  from assms(1) have "via_date (slot_at ds) = slot_at ds" by (simp add: contest_def)
  with contest_insert [OF assms] show ?thesis by simp
qed

lemma advance_commit:
  assumes "contest via_date s0 ds init"
  shows "advance via_date (ds_id ds) lf s (who a) (clock a) (Inserted ds (appt_auto_inc s0) w)
     = (w, Done (Inr (created s0 ds a)))"
proof -
  from assms have "via_date (slot_at ds) = slot_at ds" by (simp add: contest_def)
  then show ?thesis by (simp add: created_def)
qed

lemma step_unfold:
  assumes "i < length (attempts c)"
    and "advance via_date sid (lock_free c) (committed c)
           (who (attempts c ! i)) (clock (attempts c ! i)) (stage (attempts c ! i)) = (s', st')"
  shows "step via_date sid i c
           = \<lparr>committed = s', attempts = (attempts c)[i := (attempts c ! i)\<lparr>stage := st'\<rparr>]\<rparr>"
  using assms by (simp add: step_def Let_def)

lemma step_out_of_range: "\<not> i < length (attempts c) \<Longrightarrow> step via_date sid i c = c"
  by (simp add: step_def)

lemma lock_free_iff:
  "lock_free c = (\<forall>j < length (attempts c). \<not> holds_lock (stage (attempts c ! j)))"
  by (simp add: lock_free_def list_all_length)

lemma waiting_no_lock: "waiting ds a0 st \<Longrightarrow> \<not> holds_lock st"
  by (auto simp add: waiting_def)

lemma losing_no_lock: "losing ds a0 st \<Longrightarrow> \<not> holds_lock st"
  by (auto simp add: losing_def waiting_def)

text \<open>The three situations, as rules to establish the invariant.\<close>

lemma race_inv_nobody:
  assumes "length as = length init"
    and "\<forall>j < length init. who (as ! j) = who (init ! j) \<and> clock (as ! j) = clock (init ! j)"
    and "\<forall>j < length init. waiting ds (init ! j) (stage (as ! j))"
  shows "race_inv s ds init \<lparr>committed = s, attempts = as\<rparr>"
  using assms by (simp add: race_inv_def)

lemma race_inv_holder:
  assumes "length as = length init"
    and "\<forall>j < length init. who (as ! j) = who (init ! j) \<and> clock (as ! j) = clock (init ! j)"
    and "w < length init"
    and "stage (as ! w) = Updated ds (updated_view s ds)
         \<or> stage (as ! w) = Inserted ds (appt_auto_inc s) (inserted_view s ds (init ! w))"
    and "\<forall>j < length init. j \<noteq> w \<longrightarrow> waiting ds (init ! j) (stage (as ! j))"
  shows "race_inv s ds init \<lparr>committed = s, attempts = as\<rparr>"
proof -
  from assms(3,4,5) have "\<exists>w < length init. s = s
                \<and> (stage (as ! w) = Updated ds (updated_view s ds)
                    \<or> stage (as ! w)
                        = Inserted ds (appt_auto_inc s) (inserted_view s ds (init ! w)))
                \<and> (\<forall>i < length init. i \<noteq> w \<longrightarrow> waiting ds (init ! i) (stage (as ! i)))"
    by blast
  with assms(1,2) show ?thesis by (simp add: race_inv_def)
qed

lemma race_inv_winner:
  assumes "length as = length init"
    and "\<forall>j < length init. who (as ! j) = who (init ! j) \<and> clock (as ! j) = clock (init ! j)"
    and "w < length init"
    and "stage (as ! w) = Done (Inr (created s ds (init ! w)))"
    and "\<forall>j < length init. j \<noteq> w \<longrightarrow> losing ds (init ! j) (stage (as ! j))"
  shows "race_inv s ds init \<lparr>committed = inserted_view s ds (init ! w), attempts = as\<rparr>"
proof -
  from assms(3,4,5) have "\<exists>v < length init.
        inserted_view s ds (init ! w) = inserted_view s ds (init ! v)
        \<and> stage (as ! v) = Done (Inr (created s ds (init ! v)))
        \<and> (\<forall>i < length init. i \<noteq> v \<longrightarrow> losing ds (init ! i) (stage (as ! i)))"
    by blast
  with assms(1,2) show ?thesis by (simp add: race_inv_def)
qed

lemma set_stage_frame:
  assumes "i < length as"
  shows "length (as[i := (as ! i)\<lparr>stage := st\<rparr>]) = length as"
    and "\<forall>j < length as. who (as[i := (as ! i)\<lparr>stage := st\<rparr>] ! j) = who (as ! j)
                       \<and> clock (as[i := (as ! i)\<lparr>stage := st\<rparr>] ! j) = clock (as ! j)"
    and "stage (as[i := (as ! i)\<lparr>stage := st\<rparr>] ! i) = st"
    and "\<forall>j < length as. j \<noteq> i \<longrightarrow> stage (as[i := (as ! i)\<lparr>stage := st\<rparr>] ! j) = stage (as ! j)"
  using assms by (simp_all add: nth_list_update)

text \<open>No request has changed a row yet.\<close>

lemma step_nobody:
  assumes ct: "contest via_date s ds init"
    and len: "length (attempts c) = length init"
    and wc: "\<forall>j < length init. who (attempts c ! j) = who (init ! j)
                             \<and> clock (attempts c ! j) = clock (init ! j)"
    and com: "committed c = s"
    and wt: "\<forall>j < length init. waiting ds (init ! j) (stage (attempts c ! j))"
  shows "race_inv s ds init (step via_date (ds_id ds) i c)"
proof (cases "i < length (attempts c)")
  case False
  from len wc com wt have "race_inv s ds init c" by (simp add: race_inv_def)
  with False show ?thesis by (simp add: step_out_of_range)
next
  case True
  let ?a = "attempts c ! i"
  let ?as = "\<lambda>st. (attempts c)[i := ?a\<lparr>stage := st\<rparr>]"
  note fr = set_stage_frame [OF True]
  from wt len have free: "lock_free c" unfolding lock_free_iff by (auto dest: waiting_no_lock)
  from True len wt have "waiting ds (init ! i) (stage ?a)" by simp
  then consider (start) "stage ?a = Start" | (checked) "stage ?a = Checked ds"
    by (auto simp add: waiting_def)
  then show ?thesis
  proof cases
    case start
    with com advance_precheck_free [OF ct]
    have "advance via_date (ds_id ds) (lock_free c) (committed c) (who ?a) (clock ?a) (stage ?a)
            = (s, Checked ds)" by simp
    from step_unfold [OF True this]
    have eq: "step via_date (ds_id ds) i c = \<lparr>committed = s, attempts = ?as (Checked ds)\<rparr>" .
    have "\<forall>j < length init. waiting ds (init ! j) (stage (?as (Checked ds) ! j))"
    proof (intro allI impI)
      fix j assume j: "j < length init"
      show "waiting ds (init ! j) (stage (?as (Checked ds) ! j))"
      proof (cases "j = i")
        case True
        with fr(3) [of "Checked ds"] show ?thesis by (simp add: waiting_def)
      next
        case False
        with fr(4) [of "Checked ds"] j len wt show ?thesis by simp
      qed
    qed
    with fr(1,2) [of "Checked ds"] len wc show ?thesis
      unfolding eq by (intro race_inv_nobody) simp_all
  next
    case checked
    with com free advance_update_free [OF ct]
    have "advance via_date (ds_id ds) (lock_free c) (committed c) (who ?a) (clock ?a) (stage ?a)
            = (s, Updated ds (updated_view s ds))" by simp
    from step_unfold [OF True this]
    have eq: "step via_date (ds_id ds) i c
        = \<lparr>committed = s, attempts = ?as (Updated ds (updated_view s ds))\<rparr>" .
    from True len have i: "i < length init" by simp
    have others: "\<forall>j < length init. j \<noteq> i \<longrightarrow>
        waiting ds (init ! j) (stage (?as (Updated ds (updated_view s ds)) ! j))"
      using fr(4) [of "Updated ds (updated_view s ds)"] len wt by simp
    from fr(1,2,3) [of "Updated ds (updated_view s ds)"] len wc i others show ?thesis
      unfolding eq by (intro race_inv_holder [where w = i]) simp_all
  qed
qed

text \<open>One request holds the lock of the row.\<close>

lemma step_holder:
  assumes ct: "contest via_date s ds init"
    and len: "length (attempts c) = length init"
    and wc: "\<forall>j < length init. who (attempts c ! j) = who (init ! j)
                             \<and> clock (attempts c ! j) = clock (init ! j)"
    and com: "committed c = s"
    and w: "w < length init"
    and hold: "stage (attempts c ! w) = Updated ds (updated_view s ds)
         \<or> stage (attempts c ! w) = Inserted ds (appt_auto_inc s) (inserted_view s ds (init ! w))"
    and wt: "\<forall>j < length init. j \<noteq> w \<longrightarrow> waiting ds (init ! j) (stage (attempts c ! j))"
  shows "race_inv s ds init (step via_date (ds_id ds) i c)"
proof (cases "i < length (attempts c)")
  case False
  from w hold wt have "\<exists>w < length init. committed c = s
                \<and> (stage (attempts c ! w) = Updated ds (updated_view s ds)
                    \<or> stage (attempts c ! w)
                        = Inserted ds (appt_auto_inc s) (inserted_view s ds (init ! w)))
                \<and> (\<forall>i < length init. i \<noteq> w \<longrightarrow> waiting ds (init ! i) (stage (attempts c ! i)))"
    using com by blast
  with len wc have "race_inv s ds init c" by (simp add: race_inv_def)
  with False show ?thesis by (simp add: step_out_of_range)
next
  case True
  let ?a = "attempts c ! i"
  let ?as = "\<lambda>st. (attempts c)[i := ?a\<lparr>stage := st\<rparr>]"
  note fr = set_stage_frame [OF True]
  from True len have i: "i < length init" by simp
  from w len hold have locked: "\<not> lock_free c" unfolding lock_free_iff by auto
  from w have mem: "init ! w \<in> set init" by simp
  show ?thesis
  proof (cases "i = w")
    case same: True
    from wc w have id: "who (attempts c ! w) = who (init ! w)"
      "clock (attempts c ! w) = clock (init ! w)" by simp_all
    from hold show ?thesis
    proof
      assume up: "stage (attempts c ! w) = Updated ds (updated_view s ds)"
      let ?st = "Inserted ds (appt_auto_inc s) (inserted_view s ds (init ! w))"
      from up same com id advance_insert [OF ct mem]
      have "advance via_date (ds_id ds) (lock_free c) (committed c) (who ?a) (clock ?a) (stage ?a)
              = (s, ?st)" by simp
      from step_unfold [OF True this]
      have eq: "step via_date (ds_id ds) i c = \<lparr>committed = s, attempts = ?as ?st\<rparr>" .
      have others: "\<forall>j < length init. j \<noteq> w \<longrightarrow> waiting ds (init ! j) (stage (?as ?st ! j))"
        using fr(4) [of ?st] len wt same by simp
      from fr(3) [of ?st] same have "stage (?as ?st ! w) = ?st" by simp
      with fr(1,2) [of ?st] len wc w others show ?thesis
        unfolding eq by (intro race_inv_holder [where w = w]) simp_all
    next
      assume ins: "stage (attempts c ! w)
          = Inserted ds (appt_auto_inc s) (inserted_view s ds (init ! w))"
      let ?st = "Done (Inr (created s ds (init ! w)))"
      from advance_commit [OF ct, where lf = "lock_free c" and s = s and a = "init ! w"
             and w = "inserted_view s ds (init ! w)"]
        ins same com id
      have "advance via_date (ds_id ds) (lock_free c) (committed c) (who ?a) (clock ?a) (stage ?a)
              = (inserted_view s ds (init ! w), ?st)" by simp
      from step_unfold [OF True this]
      have eq: "step via_date (ds_id ds) i c
          = \<lparr>committed = inserted_view s ds (init ! w), attempts = ?as ?st\<rparr>" .
      have others: "\<forall>j < length init. j \<noteq> w \<longrightarrow> losing ds (init ! j) (stage (?as ?st ! j))"
        using fr(4) [of ?st] len wt same by (simp add: losing_def)
      from fr(3) [of ?st] same have "stage (?as ?st ! w) = ?st" by simp
      with fr(1,2) [of ?st] len wc w others show ?thesis
        unfolding eq by (intro race_inv_winner [where w = w]) simp_all
    qed
  next
    case other: False
    with wt i have "waiting ds (init ! i) (stage ?a)" by simp
    then consider (start) "stage ?a = Start" "stage (init ! i) = Start"
      | (checked) "stage ?a = Checked ds"
      by (auto simp add: waiting_def)
    then have "\<exists>st. advance via_date (ds_id ds) (lock_free c) (committed c) (who ?a) (clock ?a) (stage ?a)
                 = (s, st) \<and> waiting ds (init ! i) st"
    proof cases
      case start
      with com advance_precheck_free [OF ct] show ?thesis by (simp add: waiting_def)
    next
      case checked
      with com locked show ?thesis by (simp add: waiting_def)
    qed
    then obtain st where
      adv: "advance via_date (ds_id ds) (lock_free c) (committed c) (who ?a) (clock ?a) (stage ?a) = (s, st)"
      and st: "waiting ds (init ! i) st" by blast
    from step_unfold [OF True adv]
    have eq: "step via_date (ds_id ds) i c = \<lparr>committed = s, attempts = ?as st\<rparr>" .
    have others: "\<forall>j < length init. j \<noteq> w \<longrightarrow> waiting ds (init ! j) (stage (?as st ! j))"
    proof (intro allI impI)
      fix j assume j: "j < length init" "j \<noteq> w"
      show "waiting ds (init ! j) (stage (?as st ! j))"
      proof (cases "j = i")
        case True
        with fr(3) [of st] st show ?thesis by simp
      next
        case False
        with fr(4) [of st] j len wt show ?thesis by simp
      qed
    qed
    from fr(4) [of st] other w len have "stage (?as st ! w) = stage (attempts c ! w)" by simp
    with hold have "stage (?as st ! w) = Updated ds (updated_view s ds)
         \<or> stage (?as st ! w) = Inserted ds (appt_auto_inc s) (inserted_view s ds (init ! w))"
      by simp
    with fr(1,2) [of st] len wc w others show ?thesis
      unfolding eq by (intro race_inv_holder [where w = w]) simp_all
  qed
qed

text \<open>One request has committed.\<close>

lemma step_winner:
  assumes ct: "contest via_date s ds init"
    and len: "length (attempts c) = length init"
    and wc: "\<forall>j < length init. who (attempts c ! j) = who (init ! j)
                             \<and> clock (attempts c ! j) = clock (init ! j)"
    and w: "w < length init"
    and com: "committed c = inserted_view s ds (init ! w)"
    and won: "stage (attempts c ! w) = Done (Inr (created s ds (init ! w)))"
    and ls: "\<forall>j < length init. j \<noteq> w \<longrightarrow> losing ds (init ! j) (stage (attempts c ! j))"
  shows "race_inv s ds init (step via_date (ds_id ds) i c)"
proof (cases "i < length (attempts c)")
  case False
  from w com won ls have "\<exists>w < length init. committed c = inserted_view s ds (init ! w)
                \<and> stage (attempts c ! w) = Done (Inr (created s ds (init ! w)))
                \<and> (\<forall>i < length init. i \<noteq> w \<longrightarrow> losing ds (init ! i) (stage (attempts c ! i)))"
    by blast
  with len wc have "race_inv s ds init c" by (simp add: race_inv_def)
  with False show ?thesis by (simp add: step_out_of_range)
next
  case True
  let ?a = "attempts c ! i"
  let ?as = "\<lambda>st. (attempts c)[i := ?a\<lparr>stage := st\<rparr>]"
  let ?iv = "inserted_view s ds (init ! w)"
  note fr = set_stage_frame [OF True]
  from True len have i: "i < length init" by simp
  from w have mem: "init ! w \<in> set init" by simp
  have free: "lock_free c"
    unfolding lock_free_iff
  proof (intro allI impI)
    fix j assume j: "j < length (attempts c)"
    show "\<not> holds_lock (stage (attempts c ! j))"
    proof (cases "j = w")
      case True
      with won show ?thesis by simp
    next
      case False
      with j len ls show ?thesis by (auto dest: losing_no_lock)
    qed
  qed
  have "\<exists>st. advance via_date (ds_id ds) (lock_free c) (committed c) (who ?a) (clock ?a) (stage ?a)
               = (?iv, st)
             \<and> (if i = w then st = Done (Inr (created s ds (init ! w)))
                 else losing ds (init ! i) st)"
  proof (cases "i = w")
    case True
    with won com show ?thesis by simp
  next
    case False
    with ls i have "losing ds (init ! i) (stage ?a)" by simp
    then consider (start) "stage ?a = Start" "stage (init ! i) = Start"
      | (checked) "stage ?a = Checked ds"
      | (race) "stage ?a = Done (Inl (Conflict, ''Slot already booked (race)''))"
      | (late) "stage ?a = Done (Inl (Conflict, ''Slot already booked''))" "stage (init ! i) = Start"
      by (auto simp add: losing_def waiting_def)
    then show ?thesis
    proof cases
      case start
      with False com advance_precheck_booked [OF ct mem] show ?thesis
        by (simp add: losing_def)
    next
      case checked
      with False com free advance_update_booked [OF ct mem] show ?thesis
        by (simp add: losing_def)
    next
      case race
      with False com show ?thesis by (simp add: losing_def)
    next
      case late
      with False com show ?thesis by (simp add: losing_def)
    qed
  qed
  then obtain st where
    adv: "advance via_date (ds_id ds) (lock_free c) (committed c) (who ?a) (clock ?a) (stage ?a) = (?iv, st)"
    and st: "if i = w then st = Done (Inr (created s ds (init ! w)))
                 else losing ds (init ! i) st" by blast
  from step_unfold [OF True adv]
  have eq: "step via_date (ds_id ds) i c = \<lparr>committed = ?iv, attempts = ?as st\<rparr>" .
  have others: "\<forall>j < length init. j \<noteq> w \<longrightarrow> losing ds (init ! j) (stage (?as st ! j))"
  proof (intro allI impI)
    fix j assume j: "j < length init" "j \<noteq> w"
    show "losing ds (init ! j) (stage (?as st ! j))"
    proof (cases "j = i")
      case True
      with fr(3) [of st] st j show ?thesis by simp
    next
      case False
      with fr(4) [of st] j len ls show ?thesis by simp
    qed
  qed
  have "stage (?as st ! w) = Done (Inr (created s ds (init ! w)))"
  proof (cases "i = w")
    case True
    with fr(3) [of st] st show ?thesis by simp
  next
    case False
    with fr(4) [of st] w len won show ?thesis by simp
  qed
  with fr(1,2) [of st] len wc w others show ?thesis
    unfolding eq by (intro race_inv_winner [where w = w]) simp_all
qed

lemma step_preserves_race_inv:
  assumes ct: "contest via_date s ds init" and inv: "race_inv s ds init c"
  shows "race_inv s ds init (step via_date (ds_id ds) i c)"
proof -
  from inv have len: "length (attempts c) = length init"
    and wc: "\<forall>j < length init. who (attempts c ! j) = who (init ! j)
                             \<and> clock (attempts c ! j) = clock (init ! j)"
    by (simp_all add: race_inv_def)
  from inv consider
    (nobody) "committed c = s"
      "\<forall>i < length init. waiting ds (init ! i) (stage (attempts c ! i))"
    | (holder) w where "w < length init" "committed c = s"
      "stage (attempts c ! w) = Updated ds (updated_view s ds)
       \<or> stage (attempts c ! w) = Inserted ds (appt_auto_inc s) (inserted_view s ds (init ! w))"
      "\<forall>i < length init. i \<noteq> w \<longrightarrow> waiting ds (init ! i) (stage (attempts c ! i))"
    | (winner) w where "w < length init" "committed c = inserted_view s ds (init ! w)"
      "stage (attempts c ! w) = Done (Inr (created s ds (init ! w)))"
      "\<forall>i < length init. i \<noteq> w \<longrightarrow> losing ds (init ! i) (stage (attempts c ! i))"
    unfolding race_inv_def by blast
  then show ?thesis
  proof cases
    case nobody
    then show ?thesis by (intro step_nobody [OF ct len wc])
  next
    case (holder w)
    then show ?thesis by (intro step_holder [OF ct len wc])
  next
    case (winner w)
    then show ?thesis by (intro step_winner [OF ct len wc])
  qed
qed

lemma run_preserves_race_inv:
  assumes "contest via_date s ds init" and "race_inv s ds init c"
  shows "race_inv s ds init (run via_date (ds_id ds) schedule c)"
  using assms(2)
proof (induction schedule arbitrary: c)
  case Nil
  then show ?case by simp
next
  case (Cons i schedule)
  from step_preserves_race_inv [OF assms(1) Cons.prems] Cons.IH show ?case by simp
qed

lemma race_inv_initially:
  assumes "contest via_date s ds init"
  shows "race_inv s ds init \<lparr>committed = s, attempts = init\<rparr>"
proof (rule race_inv_nobody)
  show "\<forall>j < length init. waiting ds (init ! j) (stage (init ! j))"
    using assms by (simp add: contest_def waiting_def)
qed simp_all

lemma filter_only_index:
  "w < length xs \<Longrightarrow> (\<forall>j < length xs. P (xs ! j) \<longleftrightarrow> j = w) \<Longrightarrow> filter P xs = [xs ! w]"
proof (induction xs arbitrary: w)
  case Nil
  then show ?case by simp
next
  case (Cons x xs)
  show ?case
  proof (cases w)
    case 0
    with Cons.prems(2) have "P x" by auto
    moreover have "\<not> P y" if "y \<in> set xs" for y
    proof -
      from that obtain j where "j < length xs" "xs ! j = y" by (auto simp add: in_set_conv_nth)
      with Cons.prems(2) [rule_format, of "Suc j"] 0 show ?thesis by simp
    qed
    then have "filter P xs = []" by (simp add: filter_empty_conv)
    ultimately show ?thesis using 0 by simp
  next
    case (Suc v)
    with Cons.prems(2) [rule_format, of 0] have "\<not> P x" by simp
    moreover from Suc Cons.prems(1) have v: "v < length xs" by simp
    moreover have "\<forall>j < length xs. P (xs ! j) \<longleftrightarrow> j = v"
    proof (intro allI impI)
      fix j assume "j < length xs"
      with Cons.prems(2) [rule_format, of "Suc j"] Suc show "P (xs ! j) \<longleftrightarrow> j = v" by simp
    qed
    ultimately show ?thesis using Cons.IH [of v] Suc by simp
  qed
qed

lemma waiting_not_done: "waiting ds a0 st \<Longrightarrow> \<not> is_done st \<and> \<not> succeeded st"
  by (auto simp add: waiting_def)

lemma losing_not_succeeded: "losing ds a0 st \<Longrightarrow> \<not> succeeded st"
  by (auto simp add: losing_def waiting_def)

lemma losing_done:
  "losing ds a0 st \<Longrightarrow> is_done st \<Longrightarrow>
     conflicted st
     \<and> (stage a0 = Checked ds \<longrightarrow> st = Done (Inl (Conflict, ''Slot already booked (race)'')))"
  by (auto simp add: losing_def waiting_def)

text \<open>Before a commit nobody has a response; no request is through.\<close>

lemma race_inv_at_most_one:
  assumes "race_inv s ds init c"
  shows "length (filter (\<lambda>a. succeeded (stage a)) (attempts c)) \<le> 1"
proof -
  from assms have len: "length (attempts c) = length init" by (simp add: race_inv_def)
  from assms consider
    (none) "\<forall>i < length init. \<not> succeeded (stage (attempts c ! i))"
    | (winner) w where "w < length init"
      "stage (attempts c ! w) = Done (Inr (created s ds (init ! w)))"
      "\<forall>i < length init. i \<noteq> w \<longrightarrow> losing ds (init ! i) (stage (attempts c ! i))"
  proof -
    assume none: "\<forall>i < length init. \<not> succeeded (stage (attempts c ! i)) \<Longrightarrow> thesis"
      and winner: "\<And>w. w < length init \<Longrightarrow>
        stage (attempts c ! w) = Done (Inr (created s ds (init ! w))) \<Longrightarrow>
        \<forall>i < length init. i \<noteq> w \<longrightarrow> losing ds (init ! i) (stage (attempts c ! i)) \<Longrightarrow> thesis"
    from assms consider
      (p0) "\<forall>i < length init. waiting ds (init ! i) (stage (attempts c ! i))"
      | (p1) w where "w < length init"
        "stage (attempts c ! w) = Updated ds (updated_view s ds)
         \<or> stage (attempts c ! w) = Inserted ds (appt_auto_inc s) (inserted_view s ds (init ! w))"
        "\<forall>i < length init. i \<noteq> w \<longrightarrow> waiting ds (init ! i) (stage (attempts c ! i))"
      | (p3) w where "w < length init"
        "stage (attempts c ! w) = Done (Inr (created s ds (init ! w)))"
        "\<forall>i < length init. i \<noteq> w \<longrightarrow> losing ds (init ! i) (stage (attempts c ! i))"
      unfolding race_inv_def by blast
    then show thesis
    proof cases
      case p0
      then have "\<forall>i < length init. \<not> succeeded (stage (attempts c ! i))"
        by (auto dest: waiting_not_done)
      then show ?thesis by (rule none)
    next
      case (p1 w)
      have "\<forall>i < length init. \<not> succeeded (stage (attempts c ! i))"
      proof (intro allI impI)
        fix i assume i: "i < length init"
        show "\<not> succeeded (stage (attempts c ! i))"
        proof (cases "i = w")
          case True
          with p1(2) show ?thesis by auto
        next
          case False
          with p1(3) i show ?thesis by (auto dest: waiting_not_done)
        qed
      qed
      then show ?thesis by (rule none)
    next
      case (p3 w)
      then show ?thesis by (rule winner)
    qed
  qed
  then show ?thesis
  proof cases
    case none
    with len have "\<forall>a \<in> set (attempts c). \<not> succeeded (stage a)"
      by (auto simp add: in_set_conv_nth)
    then have "filter (\<lambda>a. succeeded (stage a)) (attempts c) = []"
      by (simp add: filter_empty_conv)
    then show ?thesis by simp
  next
    case (winner w)
    have "\<forall>j < length (attempts c). succeeded (stage (attempts c ! j)) \<longleftrightarrow> j = w"
    proof (intro allI impI)
      fix j assume j: "j < length (attempts c)"
      show "succeeded (stage (attempts c ! j)) \<longleftrightarrow> j = w"
      proof (cases "j = w")
        case True
        with winner(2) show ?thesis by simp
      next
        case False
        with winner(3) j len show ?thesis by (auto dest: losing_not_succeeded)
      qed
    qed
    with winner(1) len
    have "filter (\<lambda>a. succeeded (stage a)) (attempts c) = [attempts c ! w]"
      by (intro filter_only_index) simp_all
    then show ?thesis by simp
  qed
qed

text \<open>When every request has its response, one has won and all others got 409.\<close>

lemma race_inv_finished:
  assumes ct: "contest via_date s ds init" and inv: "race_inv s ds init c" and fin: "finished c"
  shows "\<exists>w < length init.
           committed c = inserted_view s ds (init ! w)
           \<and> stage (attempts c ! w) = Done (Inr (created s ds (init ! w)))
           \<and> (\<forall>i < length init. i \<noteq> w \<longrightarrow>
                 conflicted (stage (attempts c ! i))
                 \<and> (stage (init ! i) = Checked ds \<longrightarrow>
                      stage (attempts c ! i)
                        = Done (Inl (Conflict, ''Slot already booked (race)''))))"
proof -
  from inv have len: "length (attempts c) = length init" by (simp add: race_inv_def)
  from ct have "init \<noteq> []" by (simp add: contest_def)
  then have pos: "0 < length init" by simp
  from fin len have all_done: "\<forall>i < length init. is_done (stage (attempts c ! i))"
    by (simp add: finished_def list_all_length)
  from inv consider
    (p0) "\<forall>i < length init. waiting ds (init ! i) (stage (attempts c ! i))"
    | (p1) w where "w < length init"
      "stage (attempts c ! w) = Updated ds (updated_view s ds)
       \<or> stage (attempts c ! w) = Inserted ds (appt_auto_inc s) (inserted_view s ds (init ! w))"
    | (p3) w where "w < length init" "committed c = inserted_view s ds (init ! w)"
      "stage (attempts c ! w) = Done (Inr (created s ds (init ! w)))"
      "\<forall>i < length init. i \<noteq> w \<longrightarrow> losing ds (init ! i) (stage (attempts c ! i))"
    unfolding race_inv_def by blast
  then show ?thesis
  proof cases
    case p0
    with pos all_done have False by (auto dest: waiting_not_done)
    then show ?thesis ..
  next
    case (p1 w)
    with all_done have False by auto
    then show ?thesis ..
  next
    case (p3 w)
    have "\<forall>i < length init. i \<noteq> w \<longrightarrow>
                 conflicted (stage (attempts c ! i))
                 \<and> (stage (init ! i) = Checked ds \<longrightarrow>
                      stage (attempts c ! i)
                        = Done (Inl (Conflict, ''Slot already booked (race)'')))"
      using p3(4) all_done losing_done by blast
    with p3(1,2,3) show ?thesis by blast
  qed
qed

text \<open>Every race can be run to its end: some request can always take a step.\<close>

lemma sum_list_map_update:
  "i < length xs \<Longrightarrow>
     sum_list (map f (xs[i := x])) + f (xs ! i) = sum_list (map f xs) + (f x :: nat)"
proof (induction xs arbitrary: i)
  case Nil
  then show ?case by simp
next
  case (Cons y ys)
  show ?case
  proof (cases i)
    case 0
    then show ?thesis by simp
  next
    case (Suc k)
    with Cons.prems have "k < length ys" by simp
    from Cons.IH [OF this] Suc show ?thesis by simp
  qed
qed

lemma step_decreases:
  assumes i: "i < length (attempts c)"
    and adv: "advance via_date sid (lock_free c) (committed c)
           (who (attempts c ! i)) (clock (attempts c ! i)) (stage (attempts c ! i)) = (s', st')"
    and less: "remaining st' < remaining (stage (attempts c ! i))"
  shows "pending (step via_date sid i c) < pending c"
proof -
  let ?f = "\<lambda>a. remaining (stage a)"
  from sum_list_map_update [OF i, of ?f "(attempts c ! i)\<lparr>stage := st'\<rparr>"]
  have "pending (step via_date sid i c) + remaining (stage (attempts c ! i)) = pending c + remaining st'"
    unfolding step_unfold [OF i adv] pending_def by simp
  with less show ?thesis by simp
qed

lemma race_progress:
  assumes ct: "contest via_date s ds init" and inv: "race_inv s ds init c" and nf: "\<not> finished c"
  shows "\<exists>i. pending (step via_date (ds_id ds) i c) < pending c"
proof -
  from inv have len: "length (attempts c) = length init"
    and wc: "\<forall>j < length init. who (attempts c ! j) = who (init ! j)
                             \<and> clock (attempts c ! j) = clock (init ! j)"
    by (simp_all add: race_inv_def)
  from ct have "init \<noteq> []" by (simp add: contest_def)
  then have pos: "0 < length init" by simp
  from inv consider
    (p0) "committed c = s"
      "\<forall>i < length init. waiting ds (init ! i) (stage (attempts c ! i))"
    | (p1) w where "w < length init" "committed c = s"
      "stage (attempts c ! w) = Updated ds (updated_view s ds)
       \<or> stage (attempts c ! w) = Inserted ds (appt_auto_inc s) (inserted_view s ds (init ! w))"
    | (p3) w where "w < length init" "committed c = inserted_view s ds (init ! w)"
      "stage (attempts c ! w) = Done (Inr (created s ds (init ! w)))"
      "\<forall>i < length init. i \<noteq> w \<longrightarrow> losing ds (init ! i) (stage (attempts c ! i))"
    unfolding race_inv_def by blast
  then show ?thesis
  proof cases
    case p0
    let ?a = "attempts c ! 0"
    from pos len have i: "0 < length (attempts c)" by simp
    from p0(2) len have free: "lock_free c"
      unfolding lock_free_iff by (auto dest: waiting_no_lock)
    from p0(2) pos consider (start) "stage ?a = Start" | (checked) "stage ?a = Checked ds"
      by (auto simp add: waiting_def)
    then have "\<exists>s' st'. advance via_date (ds_id ds) (lock_free c) (committed c) (who ?a) (clock ?a) (stage ?a)
                  = (s', st') \<and> remaining st' < remaining (stage ?a)"
    proof cases
      case start
      with p0(1) advance_precheck_free [OF ct] show ?thesis by simp
    next
      case checked
      with p0(1) free advance_update_free [OF ct] show ?thesis by simp
    qed
    with step_decreases [OF i] show ?thesis by blast
  next
    case (p1 w)
    let ?a = "attempts c ! w"
    from p1(1) len have i: "w < length (attempts c)" by simp
    from p1(1) have mem: "init ! w \<in> set init" by simp
    from wc p1(1) have id: "who ?a = who (init ! w)" "clock ?a = clock (init ! w)" by simp_all
    from p1(3) have "\<exists>s' st'. advance via_date (ds_id ds) (lock_free c) (committed c) (who ?a) (clock ?a) (stage ?a)
                  = (s', st') \<and> remaining st' < remaining (stage ?a)"
    proof
      assume "stage ?a = Updated ds (updated_view s ds)"
      with p1(2) id advance_insert [OF ct mem] show ?thesis by simp
    next
      assume "stage ?a = Inserted ds (appt_auto_inc s) (inserted_view s ds (init ! w))"
      then show ?thesis by simp
    qed
    with step_decreases [OF i] show ?thesis by blast
  next
    case (p3 w)
    from nf len obtain j where j: "j < length init" and nd: "\<not> is_done (stage (attempts c ! j))"
      by (auto simp add: finished_def list_all_length)
    let ?a = "attempts c ! j"
    from j len have i: "j < length (attempts c)" by simp
    from p3(1) have mem: "init ! w \<in> set init" by simp
    from nd p3(3) have "j \<noteq> w" by auto
    with p3(4) j have "losing ds (init ! j) (stage ?a)" by simp
    with nd consider (start) "stage ?a = Start" | (checked) "stage ?a = Checked ds"
      by (auto simp add: losing_def waiting_def)
    moreover have free: "lock_free c"
      unfolding lock_free_iff
    proof (intro allI impI)
      fix k assume k: "k < length (attempts c)"
      show "\<not> holds_lock (stage (attempts c ! k))"
      proof (cases "k = w")
        case True
        with p3(3) show ?thesis by simp
      next
        case False
        with k len p3(4) show ?thesis by (auto dest: losing_no_lock)
      qed
    qed
    ultimately have "\<exists>s' st'. advance via_date (ds_id ds) (lock_free c) (committed c) (who ?a) (clock ?a) (stage ?a)
                  = (s', st') \<and> remaining st' < remaining (stage ?a)"
    proof cases
      case start
      with p3(2) advance_precheck_booked [OF ct mem] show ?thesis by simp
    next
      case checked
      with p3(2) free advance_update_booked [OF ct mem] show ?thesis by simp
    qed
    with step_decreases [OF i] show ?thesis by blast
  qed
qed

lemma race_completes:
  assumes ct: "contest via_date s ds init" and inv: "race_inv s ds init c"
  shows "\<exists>rest. finished (run via_date (ds_id ds) rest c)"
  using inv
proof (induction "pending c" arbitrary: c rule: less_induct)
  case less
  show ?case
  proof (cases "finished c")
    case True
    then have "finished (run via_date (ds_id ds) [] c)" by simp
    then show ?thesis ..
  next
    case False
    from race_progress [OF ct less.prems False]
    obtain i where "pending (step via_date (ds_id ds) i c) < pending c" ..
    from less.hyps [OF this step_preserves_race_inv [OF ct less.prems]]
    obtain rest where "finished (run via_date (ds_id ds) rest (step via_date (ds_id ds) i c))" ..
    then have "finished (run via_date (ds_id ds) (i # rest) c)" by simp
    then show ?thesis ..
  qed
qed

lemma run_append: "run via_date sid (xs @ ys) c = run via_date sid ys (run via_date sid xs c)"
  by (induction xs arbitrary: c) simp_all

text \<open>
  A request that runs alone takes the four steps of the handler: the model of the race
  and \<open>post_appointments\<close> describe the same code.
\<close>

lemma alone_is_post_appointments:
  assumes "authorizeRoles [Patient] u" and "sid \<noteq> 0"
  shows "run via_date sid [0, 0, 0, 0] \<lparr>committed = s, attempts = [\<lparr>who = u, clock = now, stage = Start\<rparr>]\<rparr>
     = \<lparr>committed = snd (post_appointments via_date now u (Some sid) s),
        attempts = [\<lparr>who = u, clock = now,
                     stage = Done (fst (post_appointments via_date now u (Some sid) s))\<rparr>]\<rparr>"
proof (cases "select_slot s sid")
  case None
  with assms show ?thesis
    by (simp add: step_def lock_free_def post_appointments_def)
next
  case (Some slot)
  show ?thesis
  proof (cases "is_booked slot")
    case True
    with Some assms show ?thesis
      by (simp add: step_def lock_free_def post_appointments_def)
  next
    case free: False
    show ?thesis
    proof (cases "snd (mark_booked sid (doctor_slots s)) = 0")
      case True
      with Some free assms show ?thesis
        by (simp add: step_def lock_free_def post_appointments_def booking_tx_def split_beta Let_def)
    next
      case changed: False
      show ?thesis
      proof (cases "insert_appointment now (u_id u) (ds_doctor_user_id slot)
                      (via_date (slot_at slot))
                      ''booked'' (s\<lparr>doctor_slots := fst (mark_booked sid (doctor_slots s))\<rparr>)")
        case None
        with Some free changed assms show ?thesis
          by (simp add: step_def lock_free_def post_appointments_def booking_tx_def split_beta Let_def)
      next
        case (Some r)
        with \<open>select_slot s sid = Some slot\<close> free changed assms show ?thesis
          by (cases r)
             (simp add: step_def lock_free_def post_appointments_def booking_tx_def split_beta Let_def)
      qed
    qed
  qed
qed

section \<open>Concurrent claims of one slot\<close>

text \<open>
  C3. It is not always exactly one request that wins. In \<open>collision_store\<close>, which
  satisfies the schema and the invariant (\<open>collision_store_consistent\<close>), with the process in the zone \<open>gap_zone\<close>, two
  patients request the free slot at 02:30 (9000) at once. Both pass the pre-check; each
  in its turn changes the row and then inserts an appointment at 03:30 (12600), where the
  doctor has an appointment already; each insert fails, the transaction is rolled back
  and the response is 500. No request succeeds, no request gets 409, and the committed
  store is the one before.
\<close>

theorem race_in_gap_has_no_winner:
  "select_slot collision_store 1
     = Some \<lparr>ds_id = 1, ds_doctor_user_id = 1, slot_at = 9000, is_booked = False,
             ds_created_at = 10\<rparr>
   \<and> run gap_zone 1 [0, 1, 0, 1, 0, 1, 1]
        \<lparr>committed = collision_store, attempts = gap_requests\<rparr>
     = \<lparr>committed = collision_store,
        attempts =
          [\<lparr>who = \<lparr>u_id = 2, u_role = Patient\<rparr>, clock = 50,
            stage = Done (Inl (Internal, ''Failed to book slot''))\<rparr>,
           \<lparr>who = \<lparr>u_id = 5, u_role = Patient\<rparr>, clock = 51,
            stage = Done (Inl (Internal, ''Failed to book slot''))\<rparr>]\<rparr>
   \<and> filter (\<lambda>a. succeeded (stage a))
        (attempts (run gap_zone 1 [0, 1, 0, 1, 0, 1, 1]
           \<lparr>committed = collision_store, attempts = gap_requests\<rparr>)) = []
   \<and> filter (\<lambda>a. conflicted (stage a))
        (attempts (run gap_zone 1 [0, 1, 0, 1, 0, 1, 1]
           \<lparr>committed = collision_store, attempts = gap_requests\<rparr>)) = []"
  by (simp add: collision_store_def gap_requests_def gap_zone_def appt_key_def
        step_def lock_free_def select_slot_def mark_booked_def insert_appointment_def)

text \<open>
  Where the time of the slot survives the round trip through a \<^verbatim>\<open>Date\<close>, the handler
  lets exactly one request win. Let any number of authenticated patients request the same free slot
  at once, each request standing before its pre-check or just after it, and let the
  scheduler interleave their statements in any order. Then at no moment more than one
  request has succeeded. When all have their responses, exactly one has got 201 and every
  other one 409; the committed store is the one of the winner's transaction; and every
  loser that had passed the pre-check was rejected by the conditional \<^verbatim>\<open>UPDATE\<close> (zero
  affected rows, "Slot already booked (race)"). Every schedule can be continued until all
  requests have their responses.
\<close>

lemma one_winner_per_slot:
  assumes "contest via_date s ds init"
  shows
   "length (filter (\<lambda>a. succeeded (stage a))
       (attempts (run via_date (ds_id ds) schedule \<lparr>committed = s, attempts = init\<rparr>))) \<le> 1
    \<and> (finished (run via_date (ds_id ds) schedule \<lparr>committed = s, attempts = init\<rparr>) \<longrightarrow>
          length (filter (\<lambda>a. succeeded (stage a))
            (attempts (run via_date (ds_id ds) schedule \<lparr>committed = s, attempts = init\<rparr>))) = 1
          \<and> length (filter (\<lambda>a. conflicted (stage a))
            (attempts (run via_date (ds_id ds) schedule \<lparr>committed = s, attempts = init\<rparr>)))
              = length init - 1
          \<and> (\<exists>w < length init.
                committed (run via_date (ds_id ds) schedule \<lparr>committed = s, attempts = init\<rparr>)
                  = inserted_view s ds (init ! w))
          \<and> (\<forall>i < length init.
                stage (init ! i) = Checked ds
                \<and> \<not> succeeded (stage (attempts
                      (run via_date (ds_id ds) schedule \<lparr>committed = s, attempts = init\<rparr>) ! i)) \<longrightarrow>
                stage (attempts (run via_date (ds_id ds) schedule \<lparr>committed = s, attempts = init\<rparr>) ! i)
                  = Done (Inl (Conflict, ''Slot already booked (race)''))))
    \<and> (\<exists>rest. finished (run via_date (ds_id ds) (schedule @ rest) \<lparr>committed = s, attempts = init\<rparr>))"
proof -
  let ?c = "run via_date (ds_id ds) schedule \<lparr>committed = s, attempts = init\<rparr>"
  let ?xs = "attempts ?c"
  have inv: "race_inv s ds init ?c"
    by (rule run_preserves_race_inv [OF assms race_inv_initially [OF assms]])
  then have len: "length ?xs = length init" by (simp add: race_inv_def)
  have safe: "length (filter (\<lambda>a. succeeded (stage a)) ?xs) \<le> 1"
    by (rule race_inv_at_most_one [OF inv])
  have at_end: "length (filter (\<lambda>a. succeeded (stage a)) ?xs) = 1
          \<and> length (filter (\<lambda>a. conflicted (stage a)) ?xs) = length init - 1
          \<and> (\<exists>w < length init. committed ?c = inserted_view s ds (init ! w))
          \<and> (\<forall>i < length init.
                stage (init ! i) = Checked ds \<and> \<not> succeeded (stage (?xs ! i)) \<longrightarrow>
                stage (?xs ! i) = Done (Inl (Conflict, ''Slot already booked (race)'')))"
    if fin: "finished ?c"
  proof -
    from race_inv_finished [OF assms inv fin] obtain w where w: "w < length init"
      and com: "committed ?c = inserted_view s ds (init ! w)"
      and won: "stage (?xs ! w) = Done (Inr (created s ds (init ! w)))"
      and lost: "\<forall>i < length init. i \<noteq> w \<longrightarrow>
                 conflicted (stage (?xs ! i))
                 \<and> (stage (init ! i) = Checked ds \<longrightarrow>
                      stage (?xs ! i) = Done (Inl (Conflict, ''Slot already booked (race)'')))"
      by blast
    have excl: "conflicted st \<Longrightarrow> \<not> succeeded st" for st
      by (cases st rule: succeeded.cases) simp_all
    have iff: "\<forall>j < length ?xs. succeeded (stage (?xs ! j)) \<longleftrightarrow> j = w"
    proof (intro allI impI)
      fix j assume j: "j < length ?xs"
      show "succeeded (stage (?xs ! j)) \<longleftrightarrow> j = w"
      proof (cases "j = w")
        case True
        with won show ?thesis by simp
      next
        case False
        with lost j len excl show ?thesis by auto
      qed
    qed
    with w len have one: "filter (\<lambda>a. succeeded (stage a)) ?xs = [?xs ! w]"
      by (intro filter_only_index) simp_all
    have "conflicted (stage a) \<longleftrightarrow> \<not> succeeded (stage a)" if "a \<in> set ?xs" for a
    proof -
      from that obtain j where j: "j < length ?xs" and a: "?xs ! j = a"
        by (auto simp add: in_set_conv_nth)
      show ?thesis
      proof (cases "j = w")
        case True
        with won a show ?thesis by auto
      next
        case False
        with lost j len a excl show ?thesis by auto
      qed
    qed
    then have "filter (\<lambda>a. conflicted (stage a)) ?xs = filter (\<lambda>a. \<not> succeeded (stage a)) ?xs"
      by (intro filter_cong) simp_all
    with sum_length_filter_compl [of "\<lambda>a. succeeded (stage a)" ?xs] one len
    have rest: "length (filter (\<lambda>a. conflicted (stage a)) ?xs) = length init - 1" by simp
    have race: "\<forall>i < length init.
                stage (init ! i) = Checked ds \<and> \<not> succeeded (stage (?xs ! i)) \<longrightarrow>
                stage (?xs ! i) = Done (Inl (Conflict, ''Slot already booked (race)''))"
    proof (intro allI impI)
      fix i assume i: "i < length init"
        and h: "stage (init ! i) = Checked ds \<and> \<not> succeeded (stage (?xs ! i))"
      with won have "i \<noteq> w" by auto
      with lost i h show "stage (?xs ! i) = Done (Inl (Conflict, ''Slot already booked (race)''))"
        by simp
    qed
    from one rest w com race show ?thesis by auto
  qed
  from race_completes [OF assms inv]
  have live: "\<exists>rest. finished (run via_date (ds_id ds) (schedule @ rest) \<lparr>committed = s, attempts = init\<rparr>)"
    by (simp add: run_append)
  from safe at_end live show ?thesis by blast
qed

lemma one_winner_per_slot_example:
  "map stage (attempts (run gap_zone 1 [0, 1, 0, 1, 0, 0, 1, 2]
      \<lparr>committed = sample_store, attempts = sample_requests\<rparr>))
     = [Done (Inr \<lparr>b_id = 2, b_patient_user_id = 3, b_doctor_user_id = 1,
                   b_scheduled_at = 100, b_slot_id = 1\<rparr>),
        Done (Inl (Conflict, ''Slot already booked (race)'')),
        Done (Inl (Conflict, ''Slot already booked''))]
   \<and> length (filter (\<lambda>a. succeeded (stage a))
        (attempts (run gap_zone 1 [0, 1, 0, 1, 0, 0, 1, 2]
           \<lparr>committed = sample_store, attempts = sample_requests\<rparr>))) = 1
   \<and> length (filter (\<lambda>a. conflicted (stage a))
        (attempts (run gap_zone 1 [0, 1, 0, 1, 0, 0, 1, 2]
           \<lparr>committed = sample_store, attempts = sample_requests\<rparr>))) = 2"
proof -
  let ?ds = "\<lparr>ds_id = 1, ds_doctor_user_id = 1, slot_at = 100, is_booked = False,
              ds_created_at = 10\<rparr>"
  let ?c = "run gap_zone 1 [0, 1, 0, 1, 0, 0, 1, 2]
               \<lparr>committed = sample_store, attempts = sample_requests\<rparr>"
  have mem: "?ds \<in> set (doctor_slots sample_store)" by (simp add: sample_store_def)
  have reqs: "\<forall>a \<in> set sample_requests.
      authenticated sample_store (who a) \<and> u_role (who a) = Patient
      \<and> (stage a = Start \<or> stage a = Checked ?ds)"
    by (simp add: sample_requests_def authenticated_def sample_store_def)
  have ne: "sample_requests \<noteq> []" by (simp add: sample_requests_def)
  have tz: "gap_zone (slot_at ?ds) = slot_at ?ds" by (simp add: gap_zone_def)
  from sample_store_ok mem reqs ne tz
  have ct: "contest gap_zone sample_store ?ds sample_requests"
    unfolding contest_def by simp
  have ev: "map stage (attempts ?c)
     = [Done (Inr \<lparr>b_id = 2, b_patient_user_id = 3, b_doctor_user_id = 1,
                   b_scheduled_at = 100, b_slot_id = 1\<rparr>),
        Done (Inl (Conflict, ''Slot already booked (race)'')),
        Done (Inl (Conflict, ''Slot already booked''))]"
    by (simp add: sample_requests_def sample_store_def step_def lock_free_def
          select_slot_def mark_booked_def insert_appointment_def appt_key_def gap_zone_def)
  have "finished ?c \<longleftrightarrow> list_all is_done (map stage (attempts ?c))"
    by (simp add: finished_def list_all_iff)
  with ev have fin: "finished ?c" by simp
  have n: "length sample_requests = 3" by (simp add: sample_requests_def)
  from one_winner_per_slot [OF ct, of "[0, 1, 0, 1, 0, 0, 1, 2]"] fin n
  have "length (filter (\<lambda>a. succeeded (stage a)) (attempts ?c)) = 1
      \<and> length (filter (\<lambda>a. conflicted (stage a)) (attempts ?c)) = 2"
    by simp
  with ev show ?thesis by simp
qed

section \<open>Every store the handlers produce is consistent\<close>

text \<open>
  The lemmas about claims assume a store that satisfies \<open>schema_ok\<close>,
  \<open>owners_are_doctors\<close> and \<open>booking_invariant\<close>. When the process runs in a time zone
  in which every time survives the round trip through a \<^verbatim>\<open>Date\<close>, every store that the
  handlers produce from an empty one is such a store.
\<close>

lemma insert_slot_row_consistent:
  assumes ok: "schema_ok s" and own: "owners_are_doctors s" and inv: "booking_invariant s"
    and orph: "no_orphans s"
    and doc: "map_of (users s) d = Some Doctor"
    and new: "(d, t) \<notin> set (map slot_key (doctor_slots s))"
  shows "schema_ok (s\<lparr>doctor_slots := doctor_slots s @
                    [\<lparr>ds_id = slot_auto_inc s, ds_doctor_user_id = d, slot_at = t,
                      is_booked = False, ds_created_at = now\<rparr>],
                  slot_auto_inc := Suc (slot_auto_inc s)\<rparr>)
       \<and> owners_are_doctors (s\<lparr>doctor_slots := doctor_slots s @
                    [\<lparr>ds_id = slot_auto_inc s, ds_doctor_user_id = d, slot_at = t,
                      is_booked = False, ds_created_at = now\<rparr>],
                  slot_auto_inc := Suc (slot_auto_inc s)\<rparr>)
       \<and> booking_invariant (s\<lparr>doctor_slots := doctor_slots s @
                    [\<lparr>ds_id = slot_auto_inc s, ds_doctor_user_id = d, slot_at = t,
                      is_booked = False, ds_created_at = now\<rparr>],
                  slot_auto_inc := Suc (slot_auto_inc s)\<rparr>)
       \<and> no_orphans (s\<lparr>doctor_slots := doctor_slots s @
                    [\<lparr>ds_id = slot_auto_inc s, ds_doctor_user_id = d, slot_at = t,
                      is_booked = False, ds_created_at = now\<rparr>],
                  slot_auto_inc := Suc (slot_auto_inc s)\<rparr>)"
    (is "schema_ok ?s' \<and> owners_are_doctors ?s' \<and> booking_invariant ?s' \<and> no_orphans ?s'")
proof (intro conjI)
  let ?row = "\<lparr>ds_id = slot_auto_inc s, ds_doctor_user_id = d, slot_at = t,
                is_booked = False, ds_created_at = now\<rparr>"
  from ok have old_slots: "\<forall>ds \<in> set (doctor_slots s).
            0 < ds_id ds \<and> ds_id ds < slot_auto_inc s
            \<and> map_of (users s) (ds_doctor_user_id ds) \<noteq> None"
    and old_appts: "\<forall>a \<in> set (appointments s).
            0 < a_id a \<and> a_id a < appt_auto_inc s
            \<and> map_of (users s) (a_patient_user_id a) \<noteq> None
            \<and> map_of (users s) (a_doctor_user_id a) \<noteq> None"
    and c: "0 < slot_auto_inc s" "0 < appt_auto_inc s"
    unfolding schema_ok_def by blast+
  from old_slots have fresh: "slot_auto_inc s \<notin> set (map ds_id (doctor_slots s))" by auto
  from ok have u: "distinct (map fst (users ?s'))" by (simp add: schema_ok_def)
  from ok fresh have i: "distinct (map ds_id (doctor_slots ?s'))" by (simp add: schema_ok_def)
  from ok new have sk: "distinct (map slot_key (doctor_slots ?s'))"
    by (simp add: schema_ok_def slot_key_def)
  from ok have ai: "distinct (map a_id (appointments ?s'))"
    and ak: "distinct (map appt_key (appointments ?s'))" by (simp_all add: schema_ok_def)
  from old_slots c doc have sl: "\<forall>ds \<in> set (doctor_slots ?s').
            0 < ds_id ds \<and> ds_id ds < slot_auto_inc ?s'
            \<and> map_of (users ?s') (ds_doctor_user_id ds) \<noteq> None"
    by (auto simp add: less_Suc_eq)
  from old_appts have ap: "\<forall>a \<in> set (appointments ?s').
            0 < a_id a \<and> a_id a < appt_auto_inc ?s'
            \<and> map_of (users ?s') (a_patient_user_id a) \<noteq> None
            \<and> map_of (users ?s') (a_doctor_user_id a) \<noteq> None"
    by simp
  from c have c': "0 < slot_auto_inc ?s'" "0 < appt_auto_inc ?s'" by simp_all
  from u i sk ai ak sl ap c' show "schema_ok ?s'" unfolding schema_ok_def by blast
  from own doc show "owners_are_doctors ?s'" by (simp add: owners_are_doctors_def)
  from orph show "no_orphans ?s'" by (auto simp add: no_orphans_def)
  have at: "appts_at ?s' key = appts_at s key" for key by (simp add: appts_at_def)
  from orph new have "(d, t) \<notin> set (map appt_key (appointments s))"
    by (auto simp add: no_orphans_def)
  then have "appts_at s (d, t) = []" unfolding appts_at_def by (rule filter_absent)
  then have "is_booked ?row \<longleftrightarrow> length (appts_at ?s' (slot_key ?row)) = 1"
    by (simp add: at slot_key_def)
  with inv show "booking_invariant ?s'" by (simp add: booking_invariant_def at)
qed

lemma insert_ignore_consistent:
  assumes "schema_ok s \<and> owners_are_doctors s \<and> booking_invariant s \<and> no_orphans s"
    and "\<forall>k \<in> set vs. map_of (users s) (fst k) = None \<or> map_of (users s) (fst k) = Some Doctor"
  shows "schema_ok (snd (insert_ignore_slots now vs s))
       \<and> owners_are_doctors (snd (insert_ignore_slots now vs s))
       \<and> booking_invariant (snd (insert_ignore_slots now vs s))
       \<and> no_orphans (snd (insert_ignore_slots now vs s))"
  using assms
proof (induction vs arbitrary: s)
  case Nil
  then show ?case by simp
next
  case (Cons v vs)
  obtain d t where v: "v = (d, t)" by (cases v)
  show ?case
  proof (cases "map_of (users s) d = None \<or> (d, t) \<in> set (map slot_key (doctor_slots s))")
    case True
    then have "insert_ignore_slots now (v # vs) s = insert_ignore_slots now vs s"
      unfolding v insert_ignore_Cons by (rule if_P)
    with Cons.IH [of s] Cons.prems show ?thesis by simp
  next
    case False
    let ?s1 = "s\<lparr>doctor_slots := doctor_slots s @
                    [\<lparr>ds_id = slot_auto_inc s, ds_doctor_user_id = d, slot_at = t,
                      is_booked = False, ds_created_at = now\<rparr>],
                  slot_auto_inc := Suc (slot_auto_inc s)\<rparr>"
    from False have step: "insert_ignore_slots now (v # vs) s
        = (Suc (fst (insert_ignore_slots now vs ?s1)), snd (insert_ignore_slots now vs ?s1))"
      unfolding v insert_ignore_Cons by (rule if_not_P)
    from False Cons.prems(2) have doc: "map_of (users s) d = Some Doctor"
      unfolding v by auto
    from False have new: "(d, t) \<notin> set (map slot_key (doctor_slots s))" by simp
    from Cons.prems(1) insert_slot_row_consistent [OF _ _ _ _ doc new, of now]
    have c1: "schema_ok ?s1 \<and> owners_are_doctors ?s1 \<and> booking_invariant ?s1 \<and> no_orphans ?s1"
      by blast
    from Cons.prems(2) have "\<forall>k \<in> set vs. map_of (users ?s1) (fst k) = None
        \<or> map_of (users ?s1) (fst k) = Some Doctor" by simp
    from Cons.IH [OF c1 this] show ?thesis unfolding step by simp
  qed
qed

lemma publish_consistent:
  assumes c: "schema_ok s \<and> owners_are_doctors s \<and> booking_invariant s \<and> no_orphans s"
    and auth: "authenticated s u"
  shows "schema_ok (snd (post_doctor_slots to_datetime now u slots s))
       \<and> owners_are_doctors (snd (post_doctor_slots to_datetime now u slots s))
       \<and> booking_invariant (snd (post_doctor_slots to_datetime now u slots s))
       \<and> no_orphans (snd (post_doctor_slots to_datetime now u slots s))"
proof (cases "snd (post_doctor_slots to_datetime now u slots s) = s")
  case True
  with c show ?thesis by simp
next
  case False
  then have role: "u_role u = Doctor"
    by (auto simp add: post_doctor_slots_def authorizeRoles_def split: if_splits)
  from False obtain xs where xs: "slots = Some xs" "xs \<noteq> []" "list_all slot_format_ok xs"
    by (cases slots) (auto simp add: post_doctor_slots_def split: if_splits)
  let ?vs = "map (\<lambda>x. (u_id u, to_datetime (the_str x))) xs"
  from auth role have "\<forall>k \<in> set ?vs. map_of (users s) (fst k) = None
      \<or> map_of (users s) (fst k) = Some Doctor"
    by (simp add: authenticated_def)
  from insert_ignore_consistent [OF c this, of now] show ?thesis
    unfolding xs(1) publish_valid_request [OF role xs(2,3)] by simp
qed

lemma delete_slot_consistent:
  assumes ok: "schema_ok s" and own: "owners_are_doctors s" and inv: "booking_invariant s"
    and orph: "no_orphans s"
  shows "schema_ok (snd (delete_doctor_slot u slotId s))
       \<and> owners_are_doctors (snd (delete_doctor_slot u slotId s))
       \<and> booking_invariant (snd (delete_doctor_slot u slotId s))
       \<and> no_orphans (snd (delete_doctor_slot u slotId s))"
proof (cases "snd (delete_doctor_slot u slotId s) = s")
  case True
  with assms show ?thesis by simp
next
  case False
  then obtain ds where sel: "select_own_slot s slotId (u_id u) = Some ds"
    by (cases "select_own_slot s slotId (u_id u)")
       (auto simp add: delete_doctor_slot_def split: if_splits)
  from sel have mem: "ds \<in> set (doctor_slots s)" and id: "ds_id ds = slotId"
    unfolding select_own_slot_def by (auto dest: find_SomeD)
  from False sel have free: "\<not> is_booked ds"
    by (auto simp add: delete_doctor_slot_def split: if_splits)
  let ?s' = "s\<lparr>doctor_slots := filter (\<lambda>x. ds_id x \<noteq> slotId) (doctor_slots s)\<rparr>"
  from False sel free have eq: "snd (delete_doctor_slot u slotId s) = ?s'"
    by (auto simp add: delete_doctor_slot_def delete_slot_row_def split: if_splits)
  from ok have di: "distinct (map ds_id (doctor_slots s))" by (simp add: schema_ok_def)
  from filter_neq_remove1 [OF di mem] id
  have tbl: "filter (\<lambda>x. ds_id x \<noteq> slotId) (doctor_slots s) = remove1 ds (doctor_slots s)"
    by simp
  from ok have old_slots: "\<forall>ds \<in> set (doctor_slots s).
            0 < ds_id ds \<and> ds_id ds < slot_auto_inc s
            \<and> map_of (users s) (ds_doctor_user_id ds) \<noteq> None"
    and old_appts: "\<forall>a \<in> set (appointments s).
            0 < a_id a \<and> a_id a < appt_auto_inc s
            \<and> map_of (users s) (a_patient_user_id a) \<noteq> None
            \<and> map_of (users s) (a_doctor_user_id a) \<noteq> None"
    and c: "0 < slot_auto_inc s" "0 < appt_auto_inc s"
    unfolding schema_ok_def by blast+
  from ok have u: "distinct (map fst (users ?s'))"
    and ai: "distinct (map a_id (appointments ?s'))"
    and ak: "distinct (map appt_key (appointments ?s'))" by (simp_all add: schema_ok_def)
  from ok have i: "distinct (map ds_id (doctor_slots ?s'))"
    and sk: "distinct (map slot_key (doctor_slots ?s'))"
    by (simp_all add: schema_ok_def distinct_map_filter)
  from old_slots have sl: "\<forall>ds \<in> set (doctor_slots ?s').
            0 < ds_id ds \<and> ds_id ds < slot_auto_inc ?s'
            \<and> map_of (users ?s') (ds_doctor_user_id ds) \<noteq> None" by simp
  from old_appts have ap: "\<forall>a \<in> set (appointments ?s').
            0 < a_id a \<and> a_id a < appt_auto_inc ?s'
            \<and> map_of (users ?s') (a_patient_user_id a) \<noteq> None
            \<and> map_of (users ?s') (a_doctor_user_id a) \<noteq> None" by simp
  from c have c': "0 < slot_auto_inc ?s'" "0 < appt_auto_inc ?s'" by simp_all
  from u i sk ai ak sl ap c' have ok': "schema_ok ?s'" unfolding schema_ok_def by blast
  from own have own': "owners_are_doctors ?s'" by (simp add: owners_are_doctors_def)
  have at: "appts_at ?s' key = appts_at s key" for key by (simp add: appts_at_def)
  from inv have inv': "booking_invariant ?s'" by (simp add: booking_invariant_def at)
  have k: "slot_key ds \<notin> set (map appt_key (appointments s))"
    by (rule free_slot_has_no_appointment [OF ok inv mem free])
  have orph': "no_orphans ?s'"
    unfolding no_orphans_def
  proof
    fix a assume a: "a \<in> set (appointments ?s')"
    with orph obtain x where x: "x \<in> set (doctor_slots s)" and kx: "slot_key x = appt_key a"
      by (auto simp add: no_orphans_def)
    from a k kx have "x \<noteq> ds" by auto
    with x di have "x \<in> set (remove1 ds (doctor_slots s))" by simp
    with kx tbl show "appt_key a \<in> set (map slot_key (doctor_slots ?s'))" by force
  qed
  from ok' own' inv' orph' show ?thesis unfolding eq by simp
qed

lemma claim_keeps_owners_and_slots:
  assumes own: "owners_are_doctors s" and orph: "no_orphans s"
    and tz: "times_survive via_date s"
  shows "owners_are_doctors (snd (post_appointments via_date now u doctorSlotId s))
       \<and> no_orphans (snd (post_appointments via_date now u doctorSlotId s))"
proof -
  from claim_commits [of via_date now u doctorSlotId s]
  consider "snd (post_appointments via_date now u doctorSlotId s) = s"
    | ds where "ds \<in> set (doctor_slots s)" "\<not> is_booked ds"
        "map_of (users s) (u_id u) \<noteq> None"
        "map_of (users s) (ds_doctor_user_id ds) \<noteq> None"
        "(ds_doctor_user_id ds, via_date (slot_at ds)) \<notin> set (map appt_key (appointments s))"
        "snd (post_appointments via_date now u doctorSlotId s)
             = s\<lparr>doctor_slots := fst (mark_booked (ds_id ds) (doctor_slots s)),
                 appointments := appointments s @
                   [\<lparr>a_id = appt_auto_inc s, a_patient_user_id = u_id u,
                     a_doctor_user_id = ds_doctor_user_id ds,
                     a_scheduled_at = via_date (slot_at ds),
                     a_status = ''booked'', a_created_at = now\<rparr>],
                 appt_auto_inc := Suc (appt_auto_inc s)\<rparr>"
    by blast
  then show ?thesis
  proof cases
    case 1
    with assms show ?thesis by simp
  next
    case (2 ds)
    from tz 2(1) have same: "via_date (slot_at ds) = slot_at ds" by (simp add: times_survive_def)
    from own have "owners_are_doctors (snd (post_appointments via_date now u doctorSlotId s))"
      unfolding 2(6) by (auto simp add: owners_are_doctors_def mark_booked_def)
    moreover have "no_orphans (snd (post_appointments via_date now u doctorSlotId s))"
    proof -
      from 2(1) have "(ds_doctor_user_id ds, slot_at ds) \<in> set (map slot_key (doctor_slots s))"
        by (force simp add: slot_key_def)
      with orph show ?thesis
        unfolding 2(6) same no_orphans_def
        by (auto simp add: mark_booked_keys appt_key_def simp del: set_map)
    qed
    ultimately show ?thesis by simp
  qed
qed

lemma cancel_keeps_owners_and_slots:
  assumes own: "owners_are_doctors s" and orph: "no_orphans s"
  shows "owners_are_doctors (snd (delete_appointment u apptId s))
       \<and> no_orphans (snd (delete_appointment u apptId s))"
proof -
  from cancel_commits [of u apptId s]
  consider "snd (delete_appointment u apptId s) = s"
    | a where "snd (delete_appointment u apptId s) = cancel_tx a s"
    by blast
  then show ?thesis
  proof cases
    case 1
    with assms show ?thesis by simp
  next
    case (2 a)
    from own have "owners_are_doctors (cancel_tx a s)"
      by (auto simp add: owners_are_doctors_def cancel_tx_def free_slot_def)
    moreover from orph have "no_orphans (cancel_tx a s)"
      by (auto simp add: no_orphans_def cancel_tx_def free_slot_keys delete_appointment_row_def
            simp del: set_map)
    ultimately show ?thesis unfolding 2 by simp
  qed
qed

lemma reachable_consistent:
  assumes "\<forall>t. via_date t = t" and "reachable via_date s"
  shows "schema_ok s \<and> owners_are_doctors s \<and> booking_invariant s \<and> no_orphans s"
  using assms(2)
proof (induction rule: reachable.induct)
  case (fresh us)
  then show ?case
    by (simp add: schema_ok_def owners_are_doctors_def booking_invariant_def no_orphans_def)
next
  case (publish s u to_datetime now slots)
  from publish_consistent [OF publish.IH publish.hyps(2)] show ?case .
next
  case (delete_slot s u slotId)
  then show ?case using delete_slot_consistent by blast
next
  case (claim s now u doctorSlotId)
  from assms(1) have tz: "times_survive via_date s" by (simp add: times_survive_def)
  from claim.IH claim_preserves [OF _ _ tz, of now u doctorSlotId]
    claim_keeps_owners_and_slots [OF _ _ tz, of now u doctorSlotId]
  show ?case by blast
next
  case (cancel s u apptId)
  with cancel_preserves [of s u apptId] cancel_keeps_owners_and_slots [of s u apptId]
  show ?case by blast
qed


end
